theory Spec2Isabelle
  imports Main "HOL-Library.Word"
begin

unbundle bit_operations_syntax

section \<open>media2array: PROGMEM array generator for images and WAV audio\<close>

text \<open>
  A shallow embedding of \<^verbatim>\<open>media2array.py\<close>. Python integers are \<open>int\<close>; the bytes of a
  file and the channel samples handed out by the image decoder are \<open>8 word\<close>, read as
  integers with \<open>uint\<close>. Exceptions that leave a function are values of \<open>py_error\<close>.
\<close>

type_synonym byte = "8 word"

datatype py_error = ZeroDivisionError | IndexError

subsection \<open>The process streams\<close>

text \<open>
  \<open>stdout\<close> and \<open>stderr\<close> hold the strings handed to the stream, one entry per call of
  \<^verbatim>\<open>sys.stdout.write\<close> (a \<^verbatim>\<open>print\<close> is the text and then the line end); the text on the
  stream is their concatenation. \<open>written\<close> is a history variable: the arguments of all
  calls of \<^verbatim>\<open>HexTable.write\<close> so far. The source keeps no such list; nothing reads it.
\<close>

record world =
  stdout :: "string list"
  stderr :: "string list"
  written :: "int list"

definition world0 :: world where
  "world0 = \<lparr>stdout = [], stderr = [], written = []\<rparr>"

definition put :: "string \<Rightarrow> world \<Rightarrow> world" where
  "put s w = w\<lparr>stdout := stdout w @ [s]\<rparr>"

definition put_err :: "string \<Rightarrow> world \<Rightarrow> world" where
  "put_err s w = w\<lparr>stderr := stderr w @ [s]\<rparr>"

subsection \<open>Number formatting\<close>

definition hexchar :: "nat \<Rightarrow> char" where
  "hexchar d = ''0123456789abcdef'' ! d"

fun hex_digits :: "nat \<Rightarrow> string" where
  "hex_digits n = (if n < 16 then [hexchar n] else hex_digits (n div 16) @ [hexchar (n mod 16)])"

declare hex_digits.simps [simp del]

text \<open>
  \<^verbatim>\<open>"{0:#0{1}x}".format(n, width)\<close>: lower-case hexadecimal with the \<^verbatim>\<open>0x\<close> prefix,
  zero-filled after sign and prefix up to \<open>width\<close> characters in all, never truncated.
  Python rejects a negative \<open>width\<close> (the format specification is then invalid); the tables
  of this program are created with 2 or 4 digits, so the width passed is 4 or 6.
\<close>

definition format_hex :: "int \<Rightarrow> int \<Rightarrow> string" where
  "format_hex n width =
     (let sgn = (if n < 0 then ''-'' else '''');
          ds = hex_digits (nat \<bar>n\<bar>);
          pad = nat (width - int (length sgn) - 2 - int (length ds))
      in sgn @ ''0x'' @ replicate pad (CHR ''0'') @ ds)"

fun dec_digits :: "nat \<Rightarrow> string" where
  "dec_digits n = (if n < 10 then [hexchar n] else dec_digits (n div 10) @ [hexchar (n mod 10)])"

declare dec_digits.simps [simp del]

text \<open>The \<^verbatim>\<open>%d\<close> conversion.\<close>

definition format_d :: "int \<Rightarrow> string" where
  "format_d n = (if n < 0 then ''-'' @ dec_digits (nat (- n)) else dec_digits (nat n))"

subsection \<open>HexTable\<close>

record HexTable =
  hexLimit :: int
  hexCounter :: int
  hexDigits :: int
  hexColumns :: int
  hexColumn :: int

text \<open>\<^verbatim>\<open>HexTable(count, columns, digits)\<close>.\<close>

definition HexTable_init :: "int \<Rightarrow> int \<Rightarrow> int \<Rightarrow> HexTable" where
  "HexTable_init count columns digits =
     \<lparr>hexLimit = count, hexCounter = 0, hexDigits = digits,
      hexColumns = columns, hexColumn = columns\<rparr>"

type_synonym sink = "HexTable \<times> world"

text \<open>\<^verbatim>\<open>HexTable.write(n)\<close>, on the table and the streams (\<open>write\<close> is a keyword of Isar).\<close>

definition write_hex :: "int \<Rightarrow> sink \<Rightarrow> sink" where
  "write_hex n = (\<lambda>(h, w).
     let w1 = (if hexCounter h > 0
               then (let wc = put '','' w
                     in if hexColumn h < hexColumns h - 1 then put '' '' wc else wc)
               else w);
         col = hexColumn h + 1;
         w2 = (if col \<ge> hexColumns h then put ''\<newline>  '' w1 else w1);
         col' = (if col \<ge> hexColumns h then 0 else col);
         w3 = put (format_hex n (hexDigits h + 2)) w2;
         w4 = w3\<lparr>written := written w3 @ [n]\<rparr>;
         cnt = hexCounter h + 1;
         w5 = (if cnt \<ge> hexLimit h then put ''\<newline>'' (put '' };\<newline>'' w4) else w4)
     in (h\<lparr>hexColumn := col', hexCounter := cnt\<rparr>, w5))"

text \<open>\<^verbatim>\<open>for b in values: hex.write(b)\<close>.\<close>

definition write_all :: "int list \<Rightarrow> sink \<Rightarrow> sink" where
  "write_all vs s = foldl (\<lambda>s v. write_hex v s) s vs"

text \<open>The strings one call of \<open>write_hex\<close> appends to \<open>stdout\<close>.\<close>

definition emitted :: "int \<Rightarrow> sink \<Rightarrow> string list" where
  "emitted n s = drop (length (stdout (snd s))) (stdout (snd (write_hex n s)))"

text \<open>The commas and spaces at the head of what a call emitted.\<close>

definition separator :: "string list \<Rightarrow> string list" where
  "separator cs = takeWhile (\<lambda>c. c = '','' \<or> c = '' '') cs"

text \<open>
  The separator as the specification words it: nothing before the first element; before
  element \<open>k > 0\<close> a comma, then a space unless element \<open>k\<close> is the last one on its line,
  that is unless it stands in column \<open>columns - 1\<close>.
\<close>

definition spec_separator :: "nat \<Rightarrow> int \<Rightarrow> string list" where
  "spec_separator k columns =
     (if k = 0 then []
      else if int k mod columns = columns - 1 then ['','']
      else ['','', '' ''])"

subsection \<open>Image conversion\<close>

text \<open>
  What the image decoder hands to \<^verbatim>\<open>convertImage\<close>: the size and the pixel accessor of an
  image of mode \<^verbatim>\<open>'1'\<close> (one sample per pixel), or of any other image after
  \<^verbatim>\<open>im.convert("RGB")\<close> (three 8-bit channels per pixel). Decoding itself is not part of
  this program; a file the decoder rejects is \<open>None\<close>.
\<close>

datatype image =
    Mono nat nat "nat \<Rightarrow> nat \<Rightarrow> byte"
  | Colour nat nat "nat \<Rightarrow> nat \<Rightarrow> byte \<times> byte \<times> byte"

definition bitmap_header :: "string \<Rightarrow> int \<Rightarrow> int \<Rightarrow> string" where
  "bitmap_header prefix wd ht =
     ''#define '' @ prefix @ ''Width  '' @ format_d wd @ ''\<newline>'' @
     ''#define '' @ prefix @ ''Height '' @ format_d ht @ ''\<newline>'' @
     ''const uint8_t PROGMEM '' @ prefix @ ''Bitmap[] = {''"

definition colour_header :: "string \<Rightarrow> string" where
  "colour_header prefix =
     ''#define '' @ prefix @ ''FPS 30\<newline>'' @
     ''const uint16_t PROGMEM '' @ prefix @ ''PixelData[] = {''"

text \<open>The body of \<^verbatim>\<open>for x in range(im.size[0])\<close> of the bitmap branch, on \<open>(bits, sum, hex)\<close>.\<close>

definition bitmap_pixel :: "(nat \<Rightarrow> nat \<Rightarrow> byte) \<Rightarrow> nat \<Rightarrow> int \<times> int \<times> sink \<Rightarrow> nat \<Rightarrow> int \<times> int \<times> sink" where
  "bitmap_pixel pixels y = (\<lambda>(bits, sm, hex) x.
     let p = (if pixels x y > 0 then 1 else 0);
         sm = push_bit 1 sm + p;
         bits = bits + 1
     in if bits \<ge> 8 then (0, 0, write_hex sm hex) else (bits, sm, hex))"

text \<open>The body of \<^verbatim>\<open>for y in range(im.size[1])\<close> of the bitmap branch.\<close>

definition bitmap_row :: "(nat \<Rightarrow> nat \<Rightarrow> byte) \<Rightarrow> nat \<Rightarrow> sink \<Rightarrow> nat \<Rightarrow> sink" where
  "bitmap_row pixels wd hex y =
     (case foldl (bitmap_pixel pixels y) (0, 0, hex) [0..<wd] of
        (bits, sm, hex') \<Rightarrow> if bits > 0 then write_hex sm hex' else hex')"

text \<open>The 5/6/5 word of one pixel.\<close>

definition quantize :: "byte \<times> byte \<times> byte \<Rightarrow> int" where
  "quantize p = (case p of (r, g, b) \<Rightarrow>
     push_bit 8 (uint r AND 0xF8) OR push_bit 3 (uint g AND 0xFC) OR drop_bit 3 (uint b))"

definition colour_column :: "(nat \<Rightarrow> nat \<Rightarrow> byte \<times> byte \<times> byte) \<Rightarrow> nat \<Rightarrow> sink \<Rightarrow> nat \<Rightarrow> sink" where
  "colour_column pixels ht hex x =
     foldl (\<lambda>hex y. write_hex (quantize (pixels x y)) hex) hex [0..<ht]"

text \<open>
  \<^verbatim>\<open>convertImage(filename)\<close>, given the prefix taken from the file name and the decoder's
  answer. The result is the return value and the streams.
\<close>

definition convertImage :: "string \<Rightarrow> image option \<Rightarrow> world \<Rightarrow> int \<times> world" where
  "convertImage prefix im w =
     (case im of
        None \<Rightarrow> (- 1, put_err ''Not an image file (?)\<newline>'' w)
      | Some (Mono wd ht pixels) \<Rightarrow>
          let hex = HexTable_init (((int wd + 7) div 8) * int ht) 12 2;
              w1 = put (bitmap_header prefix (int wd) (int ht)) (put_err ''Image OK\<newline>'' w);
              (hex', w2) = foldl (bitmap_row pixels wd) (hex, w1) [0..<ht]
          in (0, w2)
      | Some (Colour wd ht pixels) \<Rightarrow>
          let hex = HexTable_init (int wd * int ht) 9 4;
              w1 = put (colour_header prefix) (put_err ''Image OK\<newline>'' w);
              (hex', w2) = foldl (colour_column pixels ht) (hex, w1) [0..<wd]
          in (1, w2))"

subsection \<open>Audio conversion\<close>

text \<open>\<^verbatim>\<open>xs[a:b]\<close>: out-of-range bounds are clipped, negative ones count from the end.\<close>

definition py_slice :: "'a list \<Rightarrow> int \<Rightarrow> int \<Rightarrow> 'a list" where
  "py_slice xs a b =
     (let n = int (length xs);
          clip = (\<lambda>i. if i < 0 then max (n + i) 0 else min i n);
          a' = clip a;
          b' = clip b
      in take (nat (b' - a')) (drop (nat a') xs))"

text \<open>\<^verbatim>\<open>bytes[i]\<close>: raises IndexError out of range, negative indices count from the end.\<close>

definition byte_at :: "byte list \<Rightarrow> int \<Rightarrow> py_error + int" where
  "byte_at bs i =
     (let n = int (length bs);
          j = (if i < 0 then n + i else i)
      in if 0 \<le> j \<and> j < n then Inr (uint (bs ! nat j)) else Inl IndexError)"

definition uvalue :: "byte list \<Rightarrow> int" where
  "uvalue bs = foldl (\<lambda>result (i, b). result + push_bit (i * 8) (uint b)) 0 (enumerate 0 bs)"

text \<open>\<^verbatim>\<open>b'RIFF'\<close> and \<^verbatim>\<open>b'WAVEfmt '\<close>.\<close>

definition RIFF :: "byte list" where
  "RIFF = [0x52, 0x49, 0x46, 0x46]"

definition WAVEfmt :: "byte list" where
  "WAVEfmt = [0x57, 0x41, 0x56, 0x45, 0x66, 0x6D, 0x74, 0x20]"

definition wav_header :: "string \<Rightarrow> int \<Rightarrow> int \<Rightarrow> int \<Rightarrow> string" where
  "wav_header prefix rate samples bits =
     ''#define '' @ prefix @ ''SampleRate '' @ format_d rate @ ''\<newline>'' @
     ''#define '' @ prefix @ ''Samples    '' @ format_d samples @ ''\<newline>'' @
     ''#define '' @ prefix @ ''Bits       '' @ format_d bits @ ''\<newline>\<newline>'' @
     ''const uint8_t PROGMEM '' @ prefix @ ''AudioData[] = {''"

text \<open>
  \<^verbatim>\<open>for c in range(channels)\<close>, with \<open>n\<close> rounds to go, on \<open>(sum, index_in)\<close>. A read
  past the end of the file raises.
\<close>

fun channel_loop :: "byte list \<Rightarrow> int \<Rightarrow> nat \<Rightarrow> int \<times> int \<Rightarrow> py_error + int \<times> int" where
  "channel_loop bytes bitsPer 0 (sm, index_in) = Inr (sm, index_in)"
| "channel_loop bytes bitsPer (Suc n) (sm, index_in) =
     (if bitsPer = 8 then
        (case byte_at bytes index_in of
           Inl e \<Rightarrow> Inl e
         | Inr b \<Rightarrow> channel_loop bytes bitsPer n (sm + b, index_in + 1))
      else if bitsPer = 16 then
        (case byte_at bytes index_in of
           Inl e \<Rightarrow> Inl e
         | Inr b0 \<Rightarrow>
            (case byte_at bytes (index_in + 1) of
               Inl e \<Rightarrow> Inl e
             | Inr b1 \<Rightarrow>
                 let x = b0 + push_bit 8 b1;
                     x = (if x AND 0x8000 \<noteq> 0 then x - 32768 else x + 32768)
                 in channel_loop bytes bitsPer n (sm + x, index_in + 2)))
      else channel_loop bytes bitsPer n (sm, index_in))"

text \<open>The variables of \<^verbatim>\<open>convertWav\<close> that its sample loop changes.\<close>

record wav_state =
  index_in :: int
  buf :: "int list"
  bufIdx :: nat
  hex :: sink

text \<open>
  The body of \<^verbatim>\<open>for i in range(samples)\<close>; \<open>channels\<close> is the number of rounds of
  \<^verbatim>\<open>range(channels)\<close>. The result is the exception that ended it, if any, and the state
  at that moment.
\<close>

definition sample_step :: "byte list \<Rightarrow> int \<Rightarrow> int \<Rightarrow> nat \<Rightarrow> int \<Rightarrow> wav_state \<Rightarrow> py_error option \<times> wav_state" where
  "sample_step bytes bitsPer reduce16 channels dv st =
     (case channel_loop bytes bitsPer channels (0, index_in st) of
        Inl e \<Rightarrow> (Some e, st)
      | Inr (sm, idx) \<Rightarrow>
          let st1 = st\<lparr>index_in := idx\<rparr> in
          if bitsPer = 16 \<and> reduce16 = 10 then
            if dv = 0 then (Some ZeroDivisionError, st1)
            else
              let sm = sm div dv;
                  b = (buf st1)[0 := push_bit 2 (buf st1 ! 0) OR drop_bit 8 sm];
                  b = b[bufIdx st1 := sm AND 0xFF];
                  bi = bufIdx st1 + 1
              in if bi \<ge> 5
                 then (None, st1\<lparr>buf := [0, 0, 0, 0, 0], bufIdx := 1, hex := write_all b (hex st1)\<rparr>)
                 else (None, st1\<lparr>buf := b, bufIdx := bi\<rparr>)
          else
            if dv = 0 then (Some ZeroDivisionError, st1)
            else (None, st1\<lparr>hex := write_hex (sm div dv) (hex st1)\<rparr>))"

fun sample_loop :: "byte list \<Rightarrow> int \<Rightarrow> int \<Rightarrow> nat \<Rightarrow> int \<Rightarrow> nat \<Rightarrow> wav_state \<Rightarrow> py_error option \<times> wav_state" where
  "sample_loop bytes bitsPer reduce16 channels dv 0 st = (None, st)"
| "sample_loop bytes bitsPer reduce16 channels dv (Suc n) st =
     (case sample_step bytes bitsPer reduce16 channels dv st of
        (Some e, st') \<Rightarrow> (Some e, st')
      | (None, st') \<Rightarrow> sample_loop bytes bitsPer reduce16 channels dv n st')"

text \<open>
  \<^verbatim>\<open>convertWav(filename)\<close>, given the global \<^verbatim>\<open>reduce16\<close>, the prefix taken from the file name
  and the bytes of the file. \<open>Inr\<close> is the return value (\<open>- 1\<close> after the caught
  AssertionError), \<open>Inl\<close> an exception that \<^verbatim>\<open>except AssertionError\<close> does not catch; the
  streams keep what was written before it.
\<close>

definition convertWav :: "int \<Rightarrow> string \<Rightarrow> byte list \<Rightarrow> world \<Rightarrow> (py_error + int) \<times> world" where
  "convertWav reduce16 prefix bytes w =
     (if \<not> (py_slice bytes 0 4 = RIFF \<and> py_slice bytes 8 16 = WAVEfmt)
      then (Inr (- 1), put_err ''Not a WAV file\<newline>'' w)
      else
        let chunksize = uvalue (py_slice bytes 16 20);
            channels = uvalue (py_slice bytes 22 24);
            rate = uvalue (py_slice bytes 24 28);
            bytesPer = uvalue (py_slice bytes 32 34);
            bitsPer = uvalue (py_slice bytes 34 36);
            bytesTotal = uvalue (py_slice bytes (chunksize + 24) (chunksize + 28))
        in if bytesPer = 0 then (Inl ZeroDivisionError, w)
           else
             let samples = bytesTotal div bytesPer;
                 bits = (if bitsPer = 16 \<and> reduce16 = 10 then 10 else 8);
                 w1 = put (wav_header prefix rate samples bits) (put_err ''WAV OK\<newline>'' w);
                 dv = (if bitsPer = 16 then (if reduce16 = 10 then channels * 64 else channels * 256)
                       else channels);
                 h = (if bitsPer = 16 \<and> reduce16 = 10
                      then HexTable_init (5 * ((samples + 3) div 4)) 12 2
                      else HexTable_init samples 12 2);
                 st = \<lparr>index_in = chunksize + 28, buf = [0, 0, 0, 0, 0], bufIdx = 1, hex = (h, w1)\<rparr>
             in case sample_loop bytes bitsPer reduce16 (nat channels) dv (nat samples) st of
                  (Some e, st') \<Rightarrow> (Inl e, snd (hex st'))
                | (None, st') \<Rightarrow>
                    if bitsPer = 16 \<and> reduce16 = 10 \<and> bufIdx st' > 1
                    then (Inr 1, snd (write_all (buf st') (hex st')))
                    else (Inr 1, snd (hex st')))"

text \<open>The values a conversion hands to the formatter when it starts on empty streams.\<close>

definition image_values :: "image \<Rightarrow> int list" where
  "image_values im = written (snd (convertImage [] (Some im) world0))"

definition wav_values :: "int \<Rightarrow> byte list \<Rightarrow> int list" where
  "wav_values reduce16 bytes = written (snd (convertWav reduce16 [] bytes world0))"

subsection \<open>Notions for stating the properties\<close>

text \<open>The header fields of a file, by the expressions \<^verbatim>\<open>convertWav\<close> reads them with.\<close>

definition wav_magic :: "byte list \<Rightarrow> bool" where
  "wav_magic bytes \<longleftrightarrow> py_slice bytes 0 4 = RIFF \<and> py_slice bytes 8 16 = WAVEfmt"

definition wav_chunksize :: "byte list \<Rightarrow> int" where
  "wav_chunksize bytes = uvalue (py_slice bytes 16 20)"

definition wav_channels :: "byte list \<Rightarrow> int" where
  "wav_channels bytes = uvalue (py_slice bytes 22 24)"

definition wav_rate :: "byte list \<Rightarrow> int" where
  "wav_rate bytes = uvalue (py_slice bytes 24 28)"

definition wav_bytesPer :: "byte list \<Rightarrow> int" where
  "wav_bytesPer bytes = uvalue (py_slice bytes 32 34)"

definition wav_bitsPer :: "byte list \<Rightarrow> int" where
  "wav_bitsPer bytes = uvalue (py_slice bytes 34 36)"

definition wav_bytesTotal :: "byte list \<Rightarrow> int" where
  "wav_bytesTotal bytes =
     uvalue (py_slice bytes (wav_chunksize bytes + 24) (wav_chunksize bytes + 28))"

definition wav_samples :: "byte list \<Rightarrow> int" where
  "wav_samples bytes = wav_bytesTotal bytes div wav_bytesPer bytes"

text \<open>The position of the first sample byte, the start value of \<^verbatim>\<open>index_in\<close>.\<close>

definition wav_data :: "byte list \<Rightarrow> nat" where
  "wav_data bytes = nat (wav_chunksize bytes + 28)"

text \<open>
  One channel sample at byte position \<open>i\<close>: an 8-bit sample is the byte; a 16-bit sample is
  the little-endian value of two bytes, less 32768 if its top bit is set and plus 32768
  otherwise. Any other sample size reads nothing and adds nothing.
\<close>

definition raw16 :: "byte list \<Rightarrow> nat \<Rightarrow> int" where
  "raw16 bytes i = uint (bytes ! i) + push_bit 8 (uint (bytes ! (i + 1)))"

definition offset16 :: "int \<Rightarrow> int" where
  "offset16 x = (if x AND 0x8000 \<noteq> 0 then x - 32768 else x + 32768)"

definition sample_width :: "int \<Rightarrow> nat" where
  "sample_width bitsPer = (if bitsPer = 8 then 1 else if bitsPer = 16 then 2 else 0)"

definition sample_at :: "byte list \<Rightarrow> int \<Rightarrow> nat \<Rightarrow> int" where
  "sample_at bytes bitsPer i =
     (if bitsPer = 8 then uint (bytes ! i)
      else if bitsPer = 16 then offset16 (raw16 bytes i)
      else 0)"

text \<open>The sum over the \<open>ch\<close> channels of the frame that starts at byte position \<open>i\<close>.\<close>

definition frame_sum :: "byte list \<Rightarrow> int \<Rightarrow> nat \<Rightarrow> nat \<Rightarrow> int" where
  "frame_sum bytes bitsPer ch i =
     sum_list (map (\<lambda>c. sample_at bytes bitsPer (i + c * sample_width bitsPer)) [0..<ch])"

text \<open>
  The channel sums of \<open>n\<close> successive frames from byte position \<open>i\<close> on, and those of
  frames \<open>0, \<dots>, n - 1\<close> of a file.
\<close>

definition frame_sums_at :: "byte list \<Rightarrow> int \<Rightarrow> nat \<Rightarrow> nat \<Rightarrow> nat \<Rightarrow> int list" where
  "frame_sums_at bytes bitsPer ch i n =
     map (\<lambda>j. frame_sum bytes bitsPer ch (i + j * (ch * sample_width bitsPer))) [0..<n]"

definition frame_sums :: "byte list \<Rightarrow> nat \<Rightarrow> int list" where
  "frame_sums bytes n =
     frame_sums_at bytes (wav_bitsPer bytes) (nat (wav_channels bytes)) (wav_data bytes) n"

text \<open>
  The file holds every sample byte that \<open>n\<close> frames read: nothing is read when there is no
  frame or a frame has no bytes, and otherwise the last byte read is inside the file.
\<close>

definition data_present :: "byte list \<Rightarrow> nat \<Rightarrow> bool" where
  "data_present bytes n \<longleftrightarrow>
     n = 0 \<or> nat (wav_channels bytes) * sample_width (wav_bitsPer bytes) = 0
     \<or> wav_data bytes + n * (nat (wav_channels bytes) * sample_width (wav_bitsPer bytes))
          \<le> length bytes"

text \<open>A frame of \<open>c\<close> channels starting at byte position \<open>i\<close> lies inside the file.\<close>

definition frame_ok :: "byte list \<Rightarrow> int \<Rightarrow> nat \<Rightarrow> nat \<Rightarrow> bool" where
  "frame_ok bytes bitsPer c i \<longleftrightarrow>
     c * sample_width bitsPer = 0 \<or> i + c * sample_width bitsPer \<le> length bytes"

text \<open>
  The divisor, the element count declared to the formatter and the state in which
  \<^verbatim>\<open>convertWav\<close> enters its sample loop.
\<close>

definition wav_div :: "int \<Rightarrow> byte list \<Rightarrow> int" where
  "wav_div reduce16 bytes =
     (if wav_bitsPer bytes = 16
      then (if reduce16 = 10 then wav_channels bytes * 64 else wav_channels bytes * 256)
      else wav_channels bytes)"

definition wav_count :: "int \<Rightarrow> byte list \<Rightarrow> int" where
  "wav_count reduce16 bytes =
     (if wav_bitsPer bytes = 16 \<and> reduce16 = 10
      then 5 * ((wav_samples bytes + 3) div 4)
      else wav_samples bytes)"

definition wav_bits :: "int \<Rightarrow> byte list \<Rightarrow> int" where
  "wav_bits reduce16 bytes = (if wav_bitsPer bytes = 16 \<and> reduce16 = 10 then 10 else 8)"

definition wav_start :: "int \<Rightarrow> string \<Rightarrow> byte list \<Rightarrow> world \<Rightarrow> wav_state" where
  "wav_start reduce16 prefix bytes w =
     \<lparr>index_in = wav_chunksize bytes + 28, buf = [0, 0, 0, 0, 0], bufIdx = 1,
      hex = (if wav_bitsPer bytes = 16 \<and> reduce16 = 10
             then HexTable_init (5 * ((wav_samples bytes + 3) div 4)) 12 2
             else HexTable_init (wav_samples bytes) 12 2,
             put (wav_header prefix (wav_rate bytes) (wav_samples bytes) (wav_bits reduce16 bytes))
               (put_err ''WAV OK\<newline>'' w))\<rparr>"

text \<open>The samples of a list that fill groups of four, and the ones left over.\<close>

definition full_groups :: "'a list \<Rightarrow> 'a list" where
  "full_groups ss = take (4 * (length ss div 4)) ss"

definition pending :: "'a list \<Rightarrow> 'a list" where
  "pending ss = drop (4 * (length ss div 4)) ss"

text \<open>
  The 10-bit packing as the specification words it: four samples give five bytes, the
  first holding the top two bits of each sample and the others the low eight bits in
  order; a last group of one to three samples gives five bytes too, the unused ones zero.
  The specification leaves the first byte of such a last group open; here it holds the
  top bits of the samples there are, two bits for each, the last sample lowest.
\<close>

fun pack10 :: "int list \<Rightarrow> int list" where
  "pack10 (s0 # s1 # s2 # s3 # ss) =
     [push_bit 6 (drop_bit 8 s0) OR push_bit 4 (drop_bit 8 s1) OR push_bit 2 (drop_bit 8 s2)
        OR drop_bit 8 s3,
      s0 AND 0xFF, s1 AND 0xFF, s2 AND 0xFF, s3 AND 0xFF] @ pack10 ss"
| "pack10 [s0, s1, s2] =
     [push_bit 4 (drop_bit 8 s0) OR push_bit 2 (drop_bit 8 s1) OR drop_bit 8 s2,
      s0 AND 0xFF, s1 AND 0xFF, s2 AND 0xFF, 0]"
| "pack10 [s0, s1] =
     [push_bit 2 (drop_bit 8 s0) OR drop_bit 8 s1, s0 AND 0xFF, s1 AND 0xFF, 0, 0]"
| "pack10 [s0] = [drop_bit 8 s0, s0 AND 0xFF, 0, 0, 0]"
| "pack10 [] = []"

text \<open>
  The 10-bit accumulator of \<^verbatim>\<open>convertWav\<close> holds the samples \<open>ps\<close> that wait for their
  group to fill.
\<close>

definition pack_inv :: "int list \<Rightarrow> wav_state \<Rightarrow> bool" where
  "pack_inv ps st \<longleftrightarrow>
     length ps < 4 \<and> bufIdx st = length ps + 1
     \<and> buf st = (if ps = [] then [0, 0, 0, 0, 0] else pack10 ps)"

text \<open>
  The first \<open>k\<close> channel sums of a file after the division, and the values a complete
  run hands to the formatter: the scaled sums themselves, or their 10-bit packing.
\<close>

definition wav_scaled :: "int \<Rightarrow> byte list \<Rightarrow> nat \<Rightarrow> int list" where
  "wav_scaled reduce16 bytes k = map (\<lambda>s. s div wav_div reduce16 bytes) (frame_sums bytes k)"

definition wav_output :: "int \<Rightarrow> byte list \<Rightarrow> int list" where
  "wav_output reduce16 bytes =
     (if wav_bitsPer bytes = 16 \<and> reduce16 = 10
      then pack10 (wav_scaled reduce16 bytes (nat (wav_samples bytes)))
      else wav_scaled reduce16 bytes (nat (wav_samples bytes)))"

text \<open>The largest value of one channel sample after the offset conversion.\<close>

definition sample_max :: "int \<Rightarrow> int" where
  "sample_max b = (if b = 8 then 255 else if b = 16 then 65535 else 0)"

text \<open>
  Files for concrete runs: a canonical 44-byte header (format chunk of 16 bytes, PCM,
  8000 Hz) with the given channel count, bytes per frame, bits per sample and data size,
  followed by the sample bytes; and a file that ends right after the magic markers.
\<close>

definition wav_file :: "byte \<Rightarrow> byte \<Rightarrow> byte \<Rightarrow> byte \<Rightarrow> byte list \<Rightarrow> byte list" where
  "wav_file channels bytesPer bitsPer dataSize samples =
     RIFF @ [0, 0, 0, 0] @ WAVEfmt @ [16, 0, 0, 0] @ [1, 0] @ [channels, 0] @
     [0x40, 0x1F, 0, 0] @ [0, 0, 0, 0] @ [bytesPer, 0] @ [bitsPer, 0] @
     [0x64, 0x61, 0x74, 0x61] @ [dataSize, 0, 0, 0] @ samples"

definition magic_only :: "byte list" where
  "magic_only = RIFF @ [0, 0, 0, 0] @ WAVEfmt"

text \<open>
  Every value handed to the formatter so far is a byte; and the invariant of the bitmap
  loop: fewer than eight bits are gathered, and the sum fits into them.
\<close>

definition byte_values :: "sink \<Rightarrow> bool" where
  "byte_values s \<longleftrightarrow> (\<forall>v \<in> set (written (snd s)). 0 \<le> v \<and> v < 256)"

definition bitmap_inv :: "int \<times> int \<times> sink \<Rightarrow> bool" where
  "bitmap_inv = (\<lambda>(bits, sm, s). 0 \<le> bits \<and> bits < 8 \<and> 0 \<le> sm \<and> sm < 2 ^ nat bits \<and> byte_values s)"

text \<open>
  The bitmap loop without the formatter: the body of the pixel loop on \<open>(bits, sum, values)\<close>,
  the values of one row, the accumulator and the full bytes at the end of a row, and the
  invariant of the pixel loop after \<open>n\<close> pixels.
\<close>

definition pixel_pure :: "(nat \<Rightarrow> nat \<Rightarrow> byte) \<Rightarrow> nat \<Rightarrow> int \<times> int \<times> int list \<Rightarrow> nat \<Rightarrow> int \<times> int \<times> int list" where
  "pixel_pure pixels y = (\<lambda>(bits, sm, out) x.
     let p = (if pixels x y > 0 then 1 else 0);
         sm = push_bit 1 sm + p;
         bits = bits + 1
     in if bits \<ge> 8 then (0, 0, out @ [sm]) else (bits, sm, out))"

definition row_values :: "(nat \<Rightarrow> nat \<Rightarrow> byte) \<Rightarrow> nat \<Rightarrow> nat \<Rightarrow> int list" where
  "row_values pixels wd y =
     (case foldl (pixel_pure pixels y) (0, 0, []) [0..<wd] of
        (bits, sm, out) \<Rightarrow> if bits > 0 then out @ [sm] else out)"

definition row_inv :: "(nat \<Rightarrow> nat \<Rightarrow> byte) \<Rightarrow> nat \<Rightarrow> nat \<Rightarrow> int \<times> int \<times> int list \<Rightarrow> bool" where
  "row_inv pixels y n = (\<lambda>(bits, sm, out).
     bits = int (n mod 8) \<and> 0 \<le> sm \<and> sm < 2 ^ (n mod 8)
     \<and> (\<forall>j < n mod 8. bit sm j \<longleftrightarrow> pixels (n - 1 - j) y > 0)
     \<and> length out = n div 8
     \<and> (\<forall>x < 8 * (n div 8). bit (out ! (x div 8)) (7 - x mod 8) \<longleftrightarrow> pixels x y > 0))"

definition row_acc :: "(nat \<Rightarrow> nat \<Rightarrow> byte) \<Rightarrow> nat \<Rightarrow> nat \<Rightarrow> int" where
  "row_acc pixels wd y = fst (snd (foldl (pixel_pure pixels y) (0, 0, []) [0..<wd]))"

definition row_out :: "(nat \<Rightarrow> nat \<Rightarrow> byte) \<Rightarrow> nat \<Rightarrow> nat \<Rightarrow> int list" where
  "row_out pixels wd y = snd (snd (foldl (pixel_pure pixels y) (0, 0, []) [0..<wd]))"

text \<open>
  The array elements among the strings written to \<open>stdout\<close>: the header starts with
  \<^verbatim>\<open>#define\<close>, and commas, spaces, line breaks and the closing brace are written by calls
  of their own, so the elements are the strings that start with \<^verbatim>\<open>0x\<close>.
\<close>

definition rendered :: "string list \<Rightarrow> string list" where
  "rendered out = filter (\<lambda>c. take 2 c = ''0x'') out"

text \<open>
  Reading a rendered element back: the value of a hexadecimal digit is its position in
  \<^verbatim>\<open>0123456789abcdef\<close>, and a digit string is read most significant digit first.
\<close>

definition hex_digit_value :: "char \<Rightarrow> nat" where
  "hex_digit_value c = length (takeWhile (\<lambda>d. d \<noteq> c) ''0123456789abcdef'')"

definition hex_value :: "string \<Rightarrow> nat" where
  "hex_value ds = foldl (\<lambda>a c. 16 * a + hex_digit_value c) 0 ds"

text \<open>
  \<open>hex_cell d v c\<close>: the string \<open>c\<close> is \<^verbatim>\<open>0x\<close> followed by exactly \<open>d\<close> hexadecimal digits
  that denote the value \<open>v\<close>.
\<close>

definition hex_cell :: "nat \<Rightarrow> int \<Rightarrow> string \<Rightarrow> bool" where
  "hex_cell d v c \<longleftrightarrow> take 2 c = ''0x'' \<and> length c = 2 + d
     \<and> set (drop 2 c) \<subseteq> set ''0123456789abcdef'' \<and> int (hex_value (drop 2 c)) = v"

section \<open>Properties\<close>

subsection \<open>The formatter\<close>

lemma written_write_hex: "written (snd (write_hex n s)) = written (snd s) @ [n]"
  by (cases s) (simp add: write_hex_def put_def Let_def)

lemma stderr_write_hex: "stderr (snd (write_hex n s)) = stderr (snd s)"
  by (cases s) (simp add: write_hex_def put_def Let_def)

lemma table_write_hex:
  "fst (write_hex n s) = (fst s)\<lparr>hexColumn := (if hexColumn (fst s) + 1 \<ge> hexColumns (fst s) then 0 else hexColumn (fst s) + 1),
       hexCounter := hexCounter (fst s) + 1\<rparr>"
  by (cases s) (simp add: write_hex_def put_def Let_def)

lemma stdout_write_hex:
  "stdout (snd (write_hex n s)) = stdout (snd s) @
     (if hexCounter (fst s) > 0 then (if hexColumn (fst s) < hexColumns (fst s) - 1 then ['','', '' ''] else ['','']) else []) @
     (if hexColumn (fst s) + 1 \<ge> hexColumns (fst s) then [''\<newline>  ''] else []) @
     [format_hex n (hexDigits (fst s) + 2)] @
     (if hexCounter (fst s) + 1 \<ge> hexLimit (fst s) then ['' };\<newline>'', ''\<newline>''] else [])"
  by (cases s) (simp add: write_hex_def put_def Let_def)

lemma write_all_Nil [simp]: "write_all [] s = s"
  by (simp add: write_all_def)

lemma write_all_snoc: "write_all (vs @ [v]) s = write_hex v (write_all vs s)"
  by (simp add: write_all_def)

lemma write_all_Cons: "write_all (v # vs) s = write_all vs (write_hex v s)"
  by (simp add: write_all_def)

lemma write_all_append: "write_all (us @ vs) s = write_all vs (write_all us s)"
  by (simp add: write_all_def)

lemma written_write_all: "written (snd (write_all vs s)) = written (snd s) @ vs"
  by (induction vs rule: rev_induct) (simp_all add: write_all_snoc written_write_hex)

lemma stderr_write_all: "stderr (snd (write_all vs s)) = stderr (snd s)"
  by (induction vs rule: rev_induct) (simp_all add: write_all_snoc stderr_write_hex)

lemma next_column:
  fixes c :: int
  assumes "0 < c" "0 < k"
  shows "(if (k - 1) mod c + 1 \<ge> c then 0 else (k - 1) mod c + 1) = k mod c"
proof -
  have b: "0 \<le> (k - 1) mod c" "(k - 1) mod c < c" using assms by simp_all
  have e: "k mod c = ((k - 1) mod c + 1) mod c"
    by (metis diff_add_cancel mod_add_left_eq)
  show ?thesis
  proof (cases "(k - 1) mod c + 1 \<ge> c")
    case True
    with b have "(k - 1) mod c + 1 = c" by linarith
    with e True show ?thesis by simp
  next
    case False
    with b e show ?thesis by (simp add: mod_pos_pos_trivial)
  qed
qed

lemma table_write_all:
  assumes "0 < columns"
  shows "fst (write_all vs (HexTable_init count columns digits, w)) =
     \<lparr>hexLimit = count, hexCounter = int (length vs), hexDigits = digits, hexColumns = columns,
      hexColumn = (if vs = [] then columns else (int (length vs) - 1) mod columns)\<rparr>"
proof (induction vs rule: rev_induct)
  case Nil
  show ?case by (simp add: HexTable_init_def)
next
  case (snoc v vs)
  show ?case
  proof (cases "vs = []")
    case True
    then show ?thesis by (simp add: write_all_Cons table_write_hex HexTable_init_def)
  next
    case False
    then have k: "0 < int (length vs)" by simp
    from next_column [OF assms k] show ?thesis
      using False by (simp add: write_all_snoc table_write_hex snoc.IH split: if_splits)
  qed
qed

lemma emitted_write_all:
  assumes "0 < columns"
  shows "emitted n (write_all vs (HexTable_init count columns digits, w)) =
     (if vs = [] then [] else if int (length vs) mod columns = 0 then ['',''] else ['','', '' '']) @
     (if int (length vs) mod columns = 0 then [''\<newline>  ''] else []) @
     [format_hex n (digits + 2)] @
     (if int (length vs) + 1 \<ge> count then ['' };\<newline>'', ''\<newline>''] else [])"
proof (cases "vs = []")
  case True
  then show ?thesis using assms
    by (simp add: emitted_def stdout_write_hex HexTable_init_def)
next
  case False
  then have k: "0 < int (length vs)" by simp
  have b: "0 \<le> (int (length vs) - 1) mod columns" "(int (length vs) - 1) mod columns < columns"
    using assms by simp_all
  from next_column [OF assms k] b have
    "int (length vs) mod columns = 0 \<longleftrightarrow> \<not> (int (length vs) - 1) mod columns < columns - 1"
    by (auto split: if_splits)
  then show ?thesis using False
    by (simp add: emitted_def stdout_write_hex table_write_all [OF assms])
qed

lemma format_hex_length: "2 \<le> length (format_hex n wd)"
  by (simp add: format_hex_def Let_def)

lemma format_hex_no_separator: "format_hex n wd \<noteq> '',''" "format_hex n wd \<noteq> '' ''"
  using format_hex_length [of n wd] by auto

lemma separator_emitted:
  assumes "0 < columns"
  shows "separator (emitted n (write_all vs (HexTable_init count columns digits, w))) =
     (if vs = [] then [] else if int (length vs) mod columns = 0 then ['',''] else ['','', '' ''])"
  by (simp add: emitted_write_all [OF assms] separator_def format_hex_no_separator)

text \<open>
  Claim C2, as the source has it. Let \<open>k\<close> elements have been written to a fresh table with
  a positive number of columns. The next call emits no comma when \<open>k = 0\<close>. Otherwise it
  emits a comma first, and a space after it unless the element about to be written opens
  a new line (\<open>k\<close> is a multiple of the column count, so the element before it was the last
  one on its line); in that case the comma is followed directly by the line break and the
  indent. The value and, at the last element, the closing brace follow.
\<close>

theorem write_separator:
  assumes "0 < columns"
  shows "separator (emitted n (write_all vs (HexTable_init count columns digits, w))) =
           (if vs = [] then []
            else if int (length vs) mod columns = 0 then ['','']
            else ['','', '' ''])
       \<and> emitted n (write_all vs (HexTable_init count columns digits, w)) =
           (if vs = [] then []
            else if int (length vs) mod columns = 0 then ['','']
            else ['','', '' '']) @
           (if int (length vs) mod columns = 0 then [''\<newline>  ''] else []) @
           [format_hex n (digits + 2)] @
           (if int (length vs) + 1 \<ge> count then ['' };\<newline>'', ''\<newline>''] else [])"
  using emitted_write_all [OF assms] separator_emitted [OF assms] by simp

theorem write_separator_witness:
  "(0::int) < 12
   \<and> separator (emitted 7 (write_all (replicate 12 0) (HexTable_init 100 12 2, world0))) = ['','']
   \<and> separator (emitted 7 (write_all (replicate 11 0) (HexTable_init 100 12 2, world0))) = ['','', '' '']
   \<and> separator (emitted 7 (write_all [] (HexTable_init 100 12 2, world0))) = []"
  using write_separator [of 12 7 "replicate 12 0" 100 2 world0, THEN conjunct1]
        write_separator [of 12 7 "replicate 11 0" 100 2 world0, THEN conjunct1]
        write_separator [of 12 7 "[]" 100 2 world0, THEN conjunct1]
  by simp

text \<open>
  Claim C2 as worded fails: with 12 columns the twelfth element is the last one on its
  line and is still preceded by a comma and a space, and the thirteenth, which is not the
  last one on its line, is preceded by a comma alone.
\<close>

theorem write_separator_counterexample:
  "separator (emitted 7 (write_all (replicate 11 0) (HexTable_init 100 12 2, world0))) \<noteq> spec_separator 11 12
   \<and> separator (emitted 7 (write_all (replicate 12 0) (HexTable_init 100 12 2, world0))) \<noteq> spec_separator 12 12"
  by (simp add: separator_emitted spec_separator_def)

subsection \<open>Colour images\<close>

lemma foldl_invariant:
  assumes "P a" and "\<And>a x. P a \<Longrightarrow> x \<in> set xs \<Longrightarrow> P (f a x)"
  shows "P (foldl f a xs)"
  using assms by (induction xs arbitrary: a) simp_all

lemma colour_column_write_all:
  "colour_column pixels ht s x = write_all (map (\<lambda>y. quantize (pixels x y)) [0..<ht]) s"
  by (simp add: colour_column_def write_all_def foldl_map)

lemma colour_columns_write_all:
  "foldl (colour_column pixels ht) s [0..<wd] =
     write_all (concat (map (\<lambda>x. map (\<lambda>y. quantize (pixels x y)) [0..<ht]) [0..<wd])) s"
  by (induction wd) (simp_all add: write_all_append colour_column_write_all)

lemma convertImage_colour:
  "convertImage prefix (Some (Colour wd ht pixels)) w =
     (1, snd (write_all (concat (map (\<lambda>x. map (\<lambda>y. quantize (pixels x y)) [0..<ht]) [0..<wd]))
            (HexTable_init (int wd * int ht) 9 4,
             put (colour_header prefix) (put_err ''Image OK\<newline>'' w))))"
  by (simp add: convertImage_def colour_columns_write_all split: prod.split)

lemma image_values_colour:
  "image_values (Colour wd ht pixels) =
     concat (map (\<lambda>x. map (\<lambda>y. quantize (pixels x y)) [0..<ht]) [0..<wd])"
  by (simp add: image_values_def convertImage_colour written_write_all put_def put_err_def world0_def)

lemma length_concat_grid: "length (concat (map (\<lambda>x. map (f x) [0..<ht]) [0..<wd])) = wd * ht"
  by (induction wd) simp_all

lemma nth_concat_grid:
  "x < wd \<Longrightarrow> y < ht \<Longrightarrow> concat (map (\<lambda>x. map (f x) [0..<ht]) [0..<wd]) ! (x * ht + y) = f x y"
proof (induction wd)
  case 0
  then show ?case by simp
next
  case (Suc wd)
  show ?case
  proof (cases "x < wd")
    case True
    then have "Suc x \<le> wd" by simp
    then have "Suc x * ht \<le> wd * ht" by (rule mult_le_mono1)
    with \<open>y < ht\<close> have "x * ht + y < wd * ht" by simp
    with Suc.IH [OF True \<open>y < ht\<close>] show ?thesis
      by (simp add: nth_append length_concat_grid)
  next
    case False
    with Suc.prems have "x = wd" by simp
    with \<open>y < ht\<close> show ?thesis
      by (simp add: nth_append length_concat_grid)
  qed
qed

text \<open>
  Claim C6. A colour image of width \<open>wd\<close> and height \<open>ht\<close> gives exactly \<open>wd * ht\<close> values,
  column by column: the value at index \<open>x * ht + y\<close> is the 5/6/5 word
  \<open>((R AND 0xF8) << 8) OR ((G AND 0xFC) << 3) OR (B >> 3)\<close> of the pixel at \<open>(x, y)\<close>.
\<close>

theorem colour_column_major:
  "length (image_values (Colour wd ht pixels)) = wd * ht
   \<and> (x < wd \<longrightarrow> y < ht \<longrightarrow>
        image_values (Colour wd ht pixels) ! (x * ht + y) =
          (case pixels x y of (r, g, b) \<Rightarrow>
             push_bit 8 (uint r AND 0xF8) OR push_bit 3 (uint g AND 0xFC) OR drop_bit 3 (uint b)))"
  by (simp add: image_values_colour length_concat_grid nth_concat_grid quantize_def)

theorem colour_column_major_witness:
  "(1::nat) < 2 \<and> (0::nat) < 3
   \<and> length (image_values (Colour 2 3 (\<lambda>x y. (of_nat (200 * x), of_nat (100 * y + 7), 255)))) = 6
   \<and> image_values (Colour 2 3 (\<lambda>x y. (of_nat (200 * x), of_nat (100 * y + 7), 255))) ! 3 = 0xC83F"
  using colour_column_major [of 2 3 "\<lambda>x y. (of_nat (200 * x), of_nat (100 * y + 7), 255)" 1 0]
  by simp

subsection \<open>Width of rendered values\<close>

lemma length_hex_digits: "0 < d \<Longrightarrow> n < 16 ^ d \<Longrightarrow> length (hex_digits n) \<le> d"
proof (induction d arbitrary: n)
  case 0
  then show ?case by simp
next
  case (Suc d)
  show ?case
  proof (cases "n < 16")
    case True
    then show ?thesis by (simp add: hex_digits.simps [of n])
  next
    case False
    with Suc.prems have d: "0 < d" by (cases d) simp_all
    from Suc.prems have "n div 16 < 16 ^ d"
      by (simp add: less_mult_imp_div_less mult.commute)
    from Suc.IH [OF d this] False show ?thesis
      by (simp add: hex_digits.simps [of n])
  qed
qed

lemma format_hex_fits:
  assumes "0 \<le> v" "v < 16 ^ d" "0 < d"
  shows "length (format_hex v (int d + 2)) = d + 2 \<and> take 2 (format_hex v (int d + 2)) = ''0x''"
proof -
  from assms have "nat v < 16 ^ d"
    by (metis nat_less_iff of_nat_numeral of_nat_power)
  from length_hex_digits [OF \<open>0 < d\<close> this] assms(1) show ?thesis
    by (simp add: format_hex_def Let_def)
qed

lemma format_hex_byte:
  "0 \<le> v \<Longrightarrow> v < 256 \<Longrightarrow> length (format_hex v 4) = 4 \<and> take 2 (format_hex v 4) = ''0x''"
  using format_hex_fits [of v 2] by simp

lemma format_hex_word:
  "0 \<le> v \<Longrightarrow> v < 65536 \<Longrightarrow> length (format_hex v 6) = 6 \<and> take 2 (format_hex v 6) = ''0x''"
  using format_hex_fits [of v 4] by simp

subsection \<open>Bitmaps\<close>

lemma byte_values_write_hex:
  "byte_values s \<Longrightarrow> 0 \<le> v \<Longrightarrow> v < 256 \<Longrightarrow> byte_values (write_hex v s)"
  by (simp add: byte_values_def written_write_hex)

lemma byte_values_write_all:
  "byte_values s \<Longrightarrow> \<forall>v \<in> set vs. 0 \<le> v \<and> v < 256 \<Longrightarrow> byte_values (write_all vs s)"
  by (auto simp: byte_values_def written_write_all)

lemma bitmap_inv_pixel:
  assumes "bitmap_inv a"
  shows "bitmap_inv (bitmap_pixel pixels y a x)"
proof -
  obtain bits sm s where a: "a = (bits, sm, s)" by (cases a)
  with assms have b: "0 \<le> bits" "bits < 8" "0 \<le> sm" "sm < 2 ^ nat bits" "byte_values s"
    by (simp_all add: bitmap_inv_def)
  define p :: int where "p = (if pixels x y > 0 then 1 else 0)"
  have p: "0 \<le> p" "p \<le> 1" by (simp_all add: p_def)
  have "2 * sm + p < 2 * 2 ^ nat bits" using b p by linarith
  also have "\<dots> = 2 ^ nat (bits + 1)" using b by (simp add: nat_add_distrib)
  finally have lt: "2 * sm + p < 2 ^ nat (bits + 1)" .
  have ge: "0 \<le> 2 * sm + p" using b p by linarith
  show ?thesis
  proof (cases "bits + 1 \<ge> 8")
    case True
    with b have "bits + 1 = 8" by linarith
    with lt have "2 * sm + p < 256" by simp
    with ge b True show ?thesis
      by (simp add: a bitmap_pixel_def Let_def bitmap_inv_def push_bit_eq_mult
          byte_values_write_hex flip: p_def)
  next
    case False
    with ge lt b show ?thesis
      by (simp add: a bitmap_pixel_def Let_def bitmap_inv_def push_bit_eq_mult flip: p_def)
  qed
qed

lemma byte_values_bitmap_row:
  assumes "byte_values s"
  shows "byte_values (bitmap_row pixels wd s y)"
proof -
  have "bitmap_inv (0, 0, s)" using assms by (simp add: bitmap_inv_def)
  then have i: "bitmap_inv (foldl (bitmap_pixel pixels y) (0, 0, s) [0..<wd])"
    by (rule foldl_invariant) (rule bitmap_inv_pixel)
  obtain bits sm s' where r: "foldl (bitmap_pixel pixels y) (0, 0, s) [0..<wd] = (bits, sm, s')"
    by (cases "foldl (bitmap_pixel pixels y) (0, 0, s) [0..<wd]")
  with i have b: "0 \<le> bits" "bits < 8" "0 \<le> sm" "sm < 2 ^ nat bits" "byte_values s'"
    by (simp_all add: bitmap_inv_def)
  have "(2::int) ^ nat bits \<le> 2 ^ 8" using b by (intro power_increasing) simp_all
  with b have "sm < 256" by simp
  with b show ?thesis by (simp add: bitmap_row_def r byte_values_write_hex)
qed

lemma byte_values_mono: "\<forall>v \<in> set (image_values (Mono wd ht pixels)). 0 \<le> v \<and> v < 256"
proof -
  let ?s = "(HexTable_init (((int wd + 7) div 8) * int ht) 12 2,
             put (bitmap_header [] (int wd) (int ht)) (put_err ''Image OK\<newline>'' world0))"
  have "byte_values ?s" by (simp add: byte_values_def put_def put_err_def world0_def)
  then have "byte_values (foldl (bitmap_row pixels wd) ?s [0..<ht])"
    by (rule foldl_invariant) (rule byte_values_bitmap_row)
  then show ?thesis
    by (simp add: image_values_def convertImage_def byte_values_def split: prod.split)
qed

lemma quantize_bounds: "0 \<le> quantize p \<and> quantize p < 65536"
proof -
  obtain r g b where p: "p = (r, g, b)" by (cases p)
  have r: "uint r AND 0xF8 \<le> 0xF8" "0 \<le> uint r AND 0xF8" by (simp_all add: AND_upper2')
  have g: "uint g AND 0xFC \<le> 0xFC" "0 \<le> uint g AND 0xFC" by (simp_all add: AND_upper2')
  have b: "uint b < 256" "0 \<le> uint b" using uint_bounded [of b] by simp_all
  have 1: "push_bit 8 (uint r AND 0xF8) < 2 ^ 16" "0 \<le> push_bit 8 (uint r AND 0xF8)"
    using r by (simp_all add: push_bit_eq_mult)
  have 2: "push_bit 3 (uint g AND 0xFC) < 2 ^ 16" "0 \<le> push_bit 3 (uint g AND 0xFC)"
    using g by (simp_all add: push_bit_eq_mult)
  have 3: "drop_bit 3 (uint b) < 2 ^ 16" "0 \<le> drop_bit 3 (uint b)"
    using b by (simp_all add: drop_bit_eq_div div_int_pos_iff)
  have "push_bit 8 (uint r AND 0xF8) OR push_bit 3 (uint g AND 0xFC) OR drop_bit 3 (uint b) < 2 ^ 16"
    using 1 2 3 by (intro OR_upper) simp_all
  then show ?thesis using 1 2 3 by (simp add: p quantize_def)
qed

lemma word_values_colour: "\<forall>v \<in> set (image_values (Colour wd ht pixels)). 0 \<le> v \<and> v < 65536"
  by (auto simp: image_values_colour quantize_bounds)

lemma convertImage_mono:
  "convertImage prefix (Some (Mono wd ht pixels)) w =
     (0, snd (foldl (bitmap_row pixels wd)
            (HexTable_init (((int wd + 7) div 8) * int ht) 12 2,
             put (bitmap_header prefix (int wd) (int ht)) (put_err ''Image OK\<newline>'' w)) [0..<ht]))"
  by (simp add: convertImage_def split: prod.split)

lemma bitmap_1x1: "image_values (Mono 1 1 (\<lambda>x y. 255)) = [1]"
  by (simp add: image_values_def convertImage_mono bitmap_row_def bitmap_pixel_def written_write_hex
      put_def put_err_def world0_def)

subsection \<open>Reading the file\<close>

lemma py_slice_nonneg:
  "0 \<le> a \<Longrightarrow> a \<le> b \<Longrightarrow> py_slice xs a b = take (nat (b - a)) (drop (nat a) xs)"
  by (auto simp: py_slice_def Let_def min_def nat_diff_distrib)

lemma uvalue_acc_nonneg:
  "0 \<le> acc \<Longrightarrow> 0 \<le> foldl (\<lambda>result (i, b). result + push_bit (i * 8) (uint b)) acc (enumerate k bs)"
  by (induction bs arbitrary: acc k) simp_all

lemma uvalue_nonneg: "0 \<le> uvalue bs"
  by (simp add: uvalue_def uvalue_acc_nonneg)

lemma byte_at_nonneg:
  "0 \<le> i \<Longrightarrow> byte_at bs i = (if nat i < length bs then Inr (uint (bs ! nat i)) else Inl IndexError)"
  by (auto simp: byte_at_def Let_def)

lemma frame_sum_0 [simp]: "frame_sum bs b 0 i = 0"
  by (simp add: frame_sum_def)

lemma frame_sum_Suc:
  "frame_sum bs b (Suc c) i = sample_at bs b i + frame_sum bs b c (i + sample_width b)"
  by (simp add: frame_sum_def map_upt_Suc add.assoc del: upt_Suc)

lemma channel_loop_eq:
  "0 \<le> idx \<Longrightarrow>
   channel_loop bs b c (sm, idx) =
     (if frame_ok bs b c (nat idx)
      then Inr (sm + frame_sum bs b c (nat idx), idx + int (c * sample_width b))
      else Inl IndexError)"
proof (induction c arbitrary: sm idx)
  case 0
  then show ?case by (simp add: frame_ok_def)
next
  case (Suc c)
  have i: "0 \<le> idx + 1" "0 \<le> idx + 2" using Suc.prems by simp_all
  have n: "nat (idx + 1) = nat idx + 1" "nat (idx + 2) = nat idx + 2" using Suc.prems by simp_all
  consider "b = 8" | "b = 16" | "b \<noteq> 8" "b \<noteq> 16" by blast
  then show ?case
  proof cases
    case 1
    show ?thesis using Suc.prems
      by (auto simp: 1 Suc.IH [OF i(1), unfolded 1] n byte_at_nonneg frame_sum_Suc frame_ok_def
          sample_width_def sample_at_def)
  next
    case 2
    show ?thesis using Suc.prems
      by (auto simp: 2 Suc.IH [OF i(2), unfolded 2] n i byte_at_nonneg frame_sum_Suc frame_ok_def
          sample_width_def sample_at_def raw16_def offset16_def Let_def)
  next
    case 3
    then show ?thesis using Suc.prems
      by (simp add: Suc.IH [OF Suc.prems] frame_ok_def sample_width_def frame_sum_def sample_at_def)
  qed
qed

subsection \<open>The sample loop\<close>

lemma frame_sums_at_0 [simp]: "frame_sums_at bs b c i 0 = []"
  by (simp add: frame_sums_at_def)

lemma frame_sums_at_Suc:
  "frame_sums_at bs b c i (Suc n) =
     frame_sum bs b c i # frame_sums_at bs b c (i + c * sample_width b) n"
  by (simp add: frame_sums_at_def map_upt_Suc add.assoc del: upt_Suc)

lemma length_frame_sums_at [simp]: "length (frame_sums_at bs b c i n) = n"
  by (simp add: frame_sums_at_def)

lemma sample_step_index_error:
  "0 \<le> index_in st \<Longrightarrow> \<not> frame_ok bs b c (nat (index_in st)) \<Longrightarrow>
   sample_step bs b r c dv st = (Some IndexError, st)"
  by (simp add: sample_step_def channel_loop_eq)

lemma sample_step_div_error:
  "0 \<le> index_in st \<Longrightarrow> frame_ok bs b c (nat (index_in st)) \<Longrightarrow> dv = 0 \<Longrightarrow>
   sample_step bs b r c dv st =
     (Some ZeroDivisionError, st\<lparr>index_in := index_in st + int (c * sample_width b)\<rparr>)"
  by (simp add: sample_step_def channel_loop_eq Let_def)

lemma sample_step_direct:
  assumes "0 \<le> index_in st" "frame_ok bs b c (nat (index_in st))" "dv \<noteq> 0" "\<not> (b = 16 \<and> r = 10)"
  shows "sample_step bs b r c dv st =
     (None, st\<lparr>index_in := index_in st + int (c * sample_width b),
               hex := write_hex (frame_sum bs b c (nat (index_in st)) div dv) (hex st)\<rparr>)"
proof (cases "b = 16")
  case True
  with assms have "r \<noteq> 10" by simp
  with assms(1-3) show ?thesis by (simp add: sample_step_def channel_loop_eq)
next
  case False
  with assms(1-3) show ?thesis by (simp add: sample_step_def channel_loop_eq)
qed

lemma sample_step_pack:
  assumes "0 \<le> index_in st" "frame_ok bs 16 c (nat (index_in st))" "dv \<noteq> 0"
  shows "sample_step bs 16 10 c dv st =
     (let sm = frame_sum bs 16 c (nat (index_in st)) div dv;
          bf = (buf st)[0 := push_bit 2 (buf st ! 0) OR drop_bit 8 sm, bufIdx st := sm AND 0xFF]
      in if bufIdx st + 1 \<ge> 5
         then (None, st\<lparr>index_in := index_in st + int (c * sample_width 16),
                         buf := [0, 0, 0, 0, 0], bufIdx := 1, hex := write_all bf (hex st)\<rparr>)
         else (None, st\<lparr>index_in := index_in st + int (c * sample_width 16),
                         buf := bf, bufIdx := bufIdx st + 1\<rparr>))"
  using assms by (simp add: sample_step_def channel_loop_eq Let_def)

lemma sample_step_ok:
  assumes "0 \<le> index_in st"
  shows "fst (sample_step bs b r c dv st) =
     (if \<not> frame_ok bs b c (nat (index_in st)) then Some IndexError
      else if dv = 0 then Some ZeroDivisionError else None)"
proof (cases "frame_ok bs b c (nat (index_in st))")
  case False
  then show ?thesis by (simp add: sample_step_index_error [OF assms])
next
  case ok: True
  show ?thesis
  proof (cases "dv = 0")
    case True
    with ok show ?thesis by (simp add: sample_step_div_error [OF assms])
  next
    case False
    show ?thesis
    proof (cases "b = 16 \<and> r = 10")
      case True
      with ok False show ?thesis
        using sample_step_pack [OF assms, of bs c dv] by (simp add: Let_def)
    next
      case False
      with ok \<open>dv \<noteq> 0\<close> show ?thesis by (simp add: sample_step_direct [OF assms])
    qed
  qed
qed

lemma sample_step_okD:
  assumes "0 \<le> index_in st" "fst (sample_step bs b r c dv st) = None"
  shows "frame_ok bs b c (nat (index_in st))" "dv \<noteq> 0"
  using assms(2) sample_step_ok [OF assms(1), of bs b r c dv] by (simp_all split: if_splits)

lemma sample_step_index:
  assumes "0 \<le> index_in st" "fst (sample_step bs b r c dv st) = None"
  shows "index_in (snd (sample_step bs b r c dv st)) = index_in st + int (c * sample_width b)"
proof -
  note ok = sample_step_okD [OF assms]
  show ?thesis
  proof (cases "b = 16 \<and> r = 10")
    case True
    with ok show ?thesis
      using sample_step_pack [OF assms(1), of bs c dv] by (simp add: Let_def)
  next
    case False
    with ok show ?thesis by (simp add: sample_step_direct [OF assms(1)])
  qed
qed

lemma sample_step_error_hex:
  assumes "0 \<le> index_in st" "fst (sample_step bs b r c dv st) \<noteq> None"
  shows "hex (snd (sample_step bs b r c dv st)) = hex st"
    and "buf (snd (sample_step bs b r c dv st)) = buf st"
    and "bufIdx (snd (sample_step bs b r c dv st)) = bufIdx st"
proof -
  from assms(2) sample_step_ok [OF assms(1), of bs b r c dv]
  consider "\<not> frame_ok bs b c (nat (index_in st))"
    | "frame_ok bs b c (nat (index_in st))" "dv = 0"
    by (auto split: if_splits)
  then have "hex (snd (sample_step bs b r c dv st)) = hex st
    \<and> buf (snd (sample_step bs b r c dv st)) = buf st
    \<and> bufIdx (snd (sample_step bs b r c dv st)) = bufIdx st"
  proof cases
    case 1
    then show ?thesis by (simp add: sample_step_index_error [OF assms(1)])
  next
    case 2
    then show ?thesis by (simp add: sample_step_div_error [OF assms(1)])
  qed
  then show "hex (snd (sample_step bs b r c dv st)) = hex st"
    and "buf (snd (sample_step bs b r c dv st)) = buf st"
    and "bufIdx (snd (sample_step bs b r c dv st)) = bufIdx st"
    by simp_all
qed

lemma sample_loop_Suc:
  "sample_loop bs b r c dv (Suc n) st =
     (if fst (sample_step bs b r c dv st) = None
      then sample_loop bs b r c dv n (snd (sample_step bs b r c dv st))
      else sample_step bs b r c dv st)"
  by (cases "sample_step bs b r c dv st") (auto split: option.splits)

declare sample_loop.simps(2) [simp del]

lemma nat_add_int: "0 \<le> x \<Longrightarrow> nat (x + int m) = nat x + m"
  by (simp add: nat_add_distrib)

lemma sample_step_cases:
  assumes "0 \<le> index_in st"
  obtains (index_error) "\<not> frame_ok bs b c (nat (index_in st))"
      "sample_step bs b r c dv st = (Some IndexError, st)"
    | (div_error) "frame_ok bs b c (nat (index_in st))" "dv = 0"
      "fst (sample_step bs b r c dv st) = Some ZeroDivisionError"
      "hex (snd (sample_step bs b r c dv st)) = hex st"
    | (ok) "frame_ok bs b c (nat (index_in st))" "dv \<noteq> 0"
      "fst (sample_step bs b r c dv st) = None"
      "index_in (snd (sample_step bs b r c dv st)) = index_in st + int (c * sample_width b)"
proof (cases "frame_ok bs b c (nat (index_in st))")
  case False
  then show ?thesis using sample_step_index_error [OF assms] index_error by blast
next
  case True
  show ?thesis
  proof (cases "dv = 0")
    case z: True
    from sample_step_div_error [OF assms True z, of r] show ?thesis
      using True z div_error by simp
  next
    case False
    have n: "fst (sample_step bs b r c dv st) = None"
      using True False by (simp add: sample_step_ok [OF assms])
    from sample_step_index [OF assms n] True False n show ?thesis using ok by blast
  qed
qed

lemma sample_loop_result:
  assumes "0 \<le> index_in st"
  shows "fst (sample_loop bs b r c dv n st) =
     (if n = 0 then None
      else if \<not> frame_ok bs b c (nat (index_in st)) then Some IndexError
      else if dv = 0 then Some ZeroDivisionError
      else if c * sample_width b = 0
              \<or> nat (index_in st) + n * (c * sample_width b) \<le> length bs then None
      else Some IndexError)"
  using assms
proof (induction n arbitrary: st)
  case 0
  show ?case by simp
next
  case (Suc n)
  define W where "W = c * sample_width b"
  let ?st1 = "snd (sample_step bs b r c dv st)"
  from Suc.prems show ?case
  proof (cases rule: sample_step_cases [where bs = bs and b = b and r = r and c = c and dv = dv])
    case index_error
    then show ?thesis by (simp add: sample_loop_Suc)
  next
    case div_error
    then show ?thesis by (simp add: sample_loop_Suc)
  next
    case ok
    have nn: "0 \<le> index_in ?st1" "nat (index_in ?st1) = nat (index_in st) + W"
      using Suc.prems by (simp_all only: ok(4) W_def nat_add_int)
    have "fst (sample_loop bs b r c dv (Suc n) st) = fst (sample_loop bs b r c dv n ?st1)"
      using ok(3) by (simp add: sample_loop_Suc)
    also have "\<dots> = (if n = 0 then None
      else if \<not> (W = 0 \<or> nat (index_in st) + W + W \<le> length bs) then Some IndexError
      else if W = 0 \<or> nat (index_in st) + W + n * W \<le> length bs then None
      else Some IndexError)"
      using ok(2) by (simp add: Suc.IH [OF nn(1)] nn(2) frame_ok_def flip: W_def)
    also have "\<dots> = (if W = 0 \<or> nat (index_in st) + Suc n * W \<le> length bs then None
      else Some IndexError)"
    proof (cases "n = 0")
      case True
      with ok(1) show ?thesis by (simp add: frame_ok_def flip: W_def)
    next
      case False
      define m where "m = (n - 1) * W"
      have e: "n * W = W + m" using False by (cases n) (simp_all add: m_def)
      from False show ?thesis by (auto simp: e)
    qed
    finally show ?thesis using ok(1,2) by (simp flip: W_def)
  qed
qed

lemma sample_loop_direct:
  assumes "0 \<le> index_in st" "\<not> (b = 16 \<and> r = 10)"
  shows "\<exists>k\<le>n. hex (snd (sample_loop bs b r c dv n st)) =
            write_all (map (\<lambda>s. s div dv) (frame_sums_at bs b c (nat (index_in st)) k)) (hex st)
          \<and> (fst (sample_loop bs b r c dv n st) = None \<longleftrightarrow> k = n)"
  using assms(1)
proof (induction n arbitrary: st)
  case 0
  show ?case by simp
next
  case (Suc n)
  let ?st1 = "snd (sample_step bs b r c dv st)"
  from Suc.prems show ?case
  proof (cases rule: sample_step_cases [where bs = bs and b = b and r = r and c = c and dv = dv])
    case index_error
    then show ?thesis by (intro exI [of _ 0]) (simp add: sample_loop_Suc)
  next
    case div_error
    then show ?thesis by (intro exI [of _ 0]) (simp add: sample_loop_Suc)
  next
    case ok
    have nn: "0 \<le> index_in ?st1"
      "nat (index_in ?st1) = nat (index_in st) + c * sample_width b"
      using Suc.prems by (simp_all only: ok(4) nat_add_int)
    have h: "hex ?st1 = write_hex (frame_sum bs b c (nat (index_in st)) div dv) (hex st)"
      using ok(1,2) assms(2) by (simp add: sample_step_direct [OF Suc.prems])
    from Suc.IH [OF nn(1)] obtain k where k: "k \<le> n"
      "hex (snd (sample_loop bs b r c dv n ?st1)) =
         write_all (map (\<lambda>s. s div dv) (frame_sums_at bs b c (nat (index_in ?st1)) k)) (hex ?st1)"
      "fst (sample_loop bs b r c dv n ?st1) = None \<longleftrightarrow> k = n"
      by (elim exE conjE) (rule that, assumption+)
    have l: "sample_loop bs b r c dv (Suc n) st = sample_loop bs b r c dv n ?st1"
      using ok(3) by (simp add: sample_loop_Suc)
    have f: "frame_sums_at bs b c (nat (index_in st)) (Suc k) =
      frame_sum bs b c (nat (index_in st)) # frame_sums_at bs b c (nat (index_in ?st1)) k"
      by (simp only: frame_sums_at_Suc nn(2))
    show ?thesis
    proof (intro exI [of _ "Suc k"] conjI)
      show "Suc k \<le> Suc n" using k(1) by simp
      show "hex (snd (sample_loop bs b r c dv (Suc n) st)) =
        write_all (map (\<lambda>s. s div dv) (frame_sums_at bs b c (nat (index_in st)) (Suc k))) (hex st)"
        by (simp only: l f k(2) h list.map write_all_Cons)
      show "fst (sample_loop bs b r c dv (Suc n) st) = None \<longleftrightarrow> Suc k = Suc n"
        using k(3) by (simp add: l)
    qed
  qed
qed

subsection \<open>The 10-bit accumulator\<close>

lemma groups_short: "length ss < 4 \<Longrightarrow> full_groups ss = [] \<and> pending ss = ss"
  by (simp add: full_groups_def pending_def)

lemma groups_append4:
  assumes "length ps = 4"
  shows "full_groups (ps @ ss) = ps @ full_groups ss \<and> pending (ps @ ss) = pending ss"
proof -
  have "(4 + length ss) div 4 = Suc (length ss div 4)" by simp
  then have "4 * ((4 + length ss) div 4) - 4 = 4 * (length ss div 4)" by simp
  with assms show ?thesis by (simp add: full_groups_def pending_def)
qed

lemma pack10_append4: "length ps = 4 \<Longrightarrow> pack10 (ps @ ss) = pack10 ps @ pack10 ss"
  by (cases ps rule: pack10.cases) simp_all

lemma pack10_groups: "pack10 (full_groups ss) @ pack10 (pending ss) = pack10 ss"
proof (induction ss rule: pack10.induct)
  case (1 s0 s1 s2 s3 ss)
  have "full_groups (s0 # s1 # s2 # s3 # ss) = [s0, s1, s2, s3] @ full_groups ss"
    "pending (s0 # s1 # s2 # s3 # ss) = pending ss"
    using groups_append4 [of "[s0, s1, s2, s3]" ss] by simp_all
  with 1 show ?case by simp
qed (simp_all add: full_groups_def pending_def)

lemma length_pending: "length (pending ss) < 4"
  by (simp add: pending_def)

lemma sample_step_pack_inv:
  assumes "0 \<le> index_in st" "frame_ok bs 16 c (nat (index_in st))" "dv \<noteq> 0" "pack_inv ps st"
  defines "s \<equiv> frame_sum bs 16 c (nat (index_in st)) div dv"
  defines "st' \<equiv> snd (sample_step bs 16 10 c dv st)"
  shows "if length ps = 3
         then hex st' = write_all (pack10 (ps @ [s])) (hex st) \<and> pack_inv [] st'
         else hex st' = hex st \<and> pack_inv (ps @ [s]) st'"
  using assms(4) unfolding st'_def sample_step_pack [OF assms(1-3)] s_def
  by (cases ps rule: pack10.cases) (simp_all add: pack_inv_def Let_def or.assoc)

lemma pack_inv_cong: "buf st' = buf st \<Longrightarrow> bufIdx st' = bufIdx st \<Longrightarrow> pack_inv ps st' = pack_inv ps st"
  by (simp add: pack_inv_def)

lemma sample_loop_pack:
  assumes "0 \<le> index_in st" "pack_inv ps st"
  shows "\<exists>k\<le>n.
     hex (snd (sample_loop bs 16 10 c dv n st)) =
       write_all (pack10 (full_groups (ps @ map (\<lambda>s. s div dv) (frame_sums_at bs 16 c (nat (index_in st)) k))))
         (hex st)
     \<and> pack_inv (pending (ps @ map (\<lambda>s. s div dv) (frame_sums_at bs 16 c (nat (index_in st)) k)))
          (snd (sample_loop bs 16 10 c dv n st))
     \<and> (fst (sample_loop bs 16 10 c dv n st) = None \<longleftrightarrow> k = n)"
  using assms
proof (induction n arbitrary: st ps)
  case 0
  then have "length ps < 4" by (simp add: pack_inv_def)
  with 0 show ?case by (simp add: groups_short)
next
  case (Suc n)
  let ?st1 = "snd (sample_step bs 16 10 c dv st)"
  let ?vals = "\<lambda>i k. map (\<lambda>s. s div dv) (frame_sums_at bs 16 c i k)"
  have short: "length ps < 4" using Suc.prems by (simp add: pack_inv_def)
  have stop: ?case
    if e: "fst (sample_step bs 16 10 c dv st) \<noteq> None"
  proof -
    have l: "sample_loop bs 16 10 c dv (Suc n) st = sample_step bs 16 10 c dv st"
      using e by (auto simp: sample_loop_Suc)
    note u = sample_step_error_hex [OF Suc.prems(1) e]
    have "pack_inv ps ?st1" using Suc.prems(2) pack_inv_cong [OF u(2,3)] by simp
    with u(1) e short show ?thesis
      by (intro exI [of _ 0]) (simp add: l groups_short)
  qed
  from Suc.prems(1) show ?case
  proof (cases rule: sample_step_cases [where bs = bs and b = 16 and r = 10 and c = c and dv = dv])
    case index_error
    then show ?thesis by (intro stop) simp
  next
    case div_error
    then show ?thesis by (intro stop) simp
  next
    case ok
    define s where "s = frame_sum bs 16 c (nat (index_in st)) div dv"
    have nn: "0 \<le> index_in ?st1"
      "nat (index_in ?st1) = nat (index_in st) + c * sample_width 16"
      using Suc.prems(1) by (simp_all only: ok(4) nat_add_int)
    have l: "sample_loop bs 16 10 c dv (Suc n) st = sample_loop bs 16 10 c dv n ?st1"
      using ok(3) by (simp add: sample_loop_Suc)
    have f: "?vals (nat (index_in st)) (Suc k) = s # ?vals (nat (index_in ?st1)) k" for k
      by (simp only: frame_sums_at_Suc nn(2) list.map s_def)
    note step = sample_step_pack_inv [OF Suc.prems(1) ok(1,2) Suc.prems(2), folded s_def]
    show ?thesis
    proof (cases "length ps = 3")
      case True
      with step have h: "hex ?st1 = write_all (pack10 (ps @ [s])) (hex st)" and i: "pack_inv [] ?st1"
        by simp_all
      from Suc.IH [OF nn(1) i] obtain k where k: "k \<le> n"
        "hex (snd (sample_loop bs 16 10 c dv n ?st1)) =
           write_all (pack10 (full_groups ([] @ ?vals (nat (index_in ?st1)) k))) (hex ?st1)"
        "pack_inv (pending ([] @ ?vals (nat (index_in ?st1)) k)) (snd (sample_loop bs 16 10 c dv n ?st1))"
        "fst (sample_loop bs 16 10 c dv n ?st1) = None \<longleftrightarrow> k = n"
        by (elim exE conjE) (rule that, assumption+)
      have four: "length (ps @ [s]) = 4" using True by simp
      have a: "ps @ ?vals (nat (index_in st)) (Suc k) = (ps @ [s]) @ ?vals (nat (index_in ?st1)) k"
        by (simp only: f append_assoc append_Cons append_Nil)
      have g: "full_groups (ps @ ?vals (nat (index_in st)) (Suc k)) =
                 (ps @ [s]) @ full_groups (?vals (nat (index_in ?st1)) k)"
        "pending (ps @ ?vals (nat (index_in st)) (Suc k)) = pending (?vals (nat (index_in ?st1)) k)"
        using groups_append4 [OF four] by (simp_all only: a)
      show ?thesis
      proof (intro exI [of _ "Suc k"] conjI)
        show "Suc k \<le> Suc n" using k(1) by simp
        show "hex (snd (sample_loop bs 16 10 c dv (Suc n) st)) =
          write_all (pack10 (full_groups (ps @ ?vals (nat (index_in st)) (Suc k)))) (hex st)"
          using k(2) by (simp only: l g pack10_append4 [OF four] write_all_append h append_Nil)
        show "pack_inv (pending (ps @ ?vals (nat (index_in st)) (Suc k)))
          (snd (sample_loop bs 16 10 c dv (Suc n) st))"
          using k(3) by (simp only: l g append_Nil)
        show "fst (sample_loop bs 16 10 c dv (Suc n) st) = None \<longleftrightarrow> Suc k = Suc n"
          using k(4) by (simp add: l)
      qed
    next
      case False
      with step have h: "hex ?st1 = hex st" and i: "pack_inv (ps @ [s]) ?st1"
        by simp_all
      from Suc.IH [OF nn(1) i] obtain k where k: "k \<le> n"
        "hex (snd (sample_loop bs 16 10 c dv n ?st1)) =
           write_all (pack10 (full_groups ((ps @ [s]) @ ?vals (nat (index_in ?st1)) k))) (hex ?st1)"
        "pack_inv (pending ((ps @ [s]) @ ?vals (nat (index_in ?st1)) k)) (snd (sample_loop bs 16 10 c dv n ?st1))"
        "fst (sample_loop bs 16 10 c dv n ?st1) = None \<longleftrightarrow> k = n"
        by (elim exE conjE) (rule that, assumption+)
      have a: "ps @ ?vals (nat (index_in st)) (Suc k) = (ps @ [s]) @ ?vals (nat (index_in ?st1)) k"
        by (simp only: f append_assoc append_Cons append_Nil)
      show ?thesis
      proof (intro exI [of _ "Suc k"] conjI)
        show "Suc k \<le> Suc n" using k(1) by simp
        show "hex (snd (sample_loop bs 16 10 c dv (Suc n) st)) =
          write_all (pack10 (full_groups (ps @ ?vals (nat (index_in st)) (Suc k)))) (hex st)"
          using k(2) by (simp only: l a h)
        show "pack_inv (pending (ps @ ?vals (nat (index_in st)) (Suc k)))
          (snd (sample_loop bs 16 10 c dv (Suc n) st))"
          using k(3) by (simp only: l a)
        show "fst (sample_loop bs 16 10 c dv (Suc n) st) = None \<longleftrightarrow> Suc k = Suc n"
          using k(4) by (simp add: l)
      qed
    qed
  qed
qed

subsection \<open>Outcome of the audio conversion\<close>

lemma convertWav_eq:
  "convertWav r p bs w =
     (if \<not> wav_magic bs then (Inr (- 1), put_err ''Not a WAV file\<newline>'' w)
      else if wav_bytesPer bs = 0 then (Inl ZeroDivisionError, w)
      else (case sample_loop bs (wav_bitsPer bs) r (nat (wav_channels bs)) (wav_div r bs)
                   (nat (wav_samples bs)) (wav_start r p bs w) of
              (Some e, st') \<Rightarrow> (Inl e, snd (hex st'))
            | (None, st') \<Rightarrow>
                if wav_bitsPer bs = 16 \<and> r = 10 \<and> bufIdx st' > 1
                then (Inr 1, snd (write_all (buf st') (hex st')))
                else (Inr 1, snd (hex st'))))"
  unfolding convertWav_def Let_def wav_magic_def wav_bytesPer_def wav_bitsPer_def
      wav_channels_def wav_div_def wav_samples_def wav_start_def wav_chunksize_def wav_rate_def
      wav_bytesTotal_def wav_bits_def
  by (rule refl)

lemma wav_fields_nonneg:
  "0 \<le> wav_chunksize bs" "0 \<le> wav_channels bs" "0 \<le> wav_bytesPer bs" "0 \<le> wav_bytesTotal bs"
  by (simp_all add: wav_chunksize_def wav_channels_def wav_bytesPer_def wav_bytesTotal_def
      uvalue_nonneg)

lemma wav_samples_nonneg: "0 \<le> wav_samples bs"
  using wav_fields_nonneg [of bs] by (simp add: wav_samples_def pos_imp_zdiv_nonneg_iff div_int_pos_iff)

lemma wav_div_eq_0: "wav_div r bs = 0 \<longleftrightarrow> wav_channels bs = 0"
  by (simp add: wav_div_def)

lemma wav_start_index:
  "0 \<le> index_in (wav_start r p bs w)" "nat (index_in (wav_start r p bs w)) = wav_data bs"
  using wav_fields_nonneg(1) [of bs] by (simp_all add: wav_start_def wav_data_def)

lemma wav_start_fields:
  "buf (wav_start r p bs w) = [0, 0, 0, 0, 0]" "bufIdx (wav_start r p bs w) = 1"
  "hex (wav_start r p bs w) =
     (HexTable_init (wav_count r bs) 12 2,
      put (wav_header p (wav_rate bs) (wav_samples bs) (wav_bits r bs)) (put_err ''WAV OK\<newline>'' w))"
  by (simp_all add: wav_start_def wav_count_def)

lemma convertWav_fst:
  "fst (convertWav r p bs w) =
     (if \<not> wav_magic bs then Inr (- 1)
      else if wav_bytesPer bs = 0 then Inl ZeroDivisionError
      else (case fst (sample_loop bs (wav_bitsPer bs) r (nat (wav_channels bs)) (wav_div r bs)
                   (nat (wav_samples bs)) (wav_start r p bs w)) of
              Some e \<Rightarrow> Inl e | None \<Rightarrow> Inr 1))"
  by (simp add: convertWav_eq split: prod.split option.split)

lemma wav_loop_result:
  "fst (sample_loop bs (wav_bitsPer bs) r (nat (wav_channels bs)) (wav_div r bs)
          (nat (wav_samples bs)) (wav_start r p bs w)) =
     (if wav_samples bs \<le> 0 then None
      else if wav_channels bs = 0 then Some ZeroDivisionError
      else if data_present bs (nat (wav_samples bs)) then None
      else Some IndexError)"
proof -
  define n where "n = nat (wav_samples bs)"
  define W where "W = nat (wav_channels bs) * sample_width (wav_bitsPer bs)"
  have n: "wav_samples bs \<le> 0 \<longleftrightarrow> n = 0" by (simp add: n_def)
  have c: "wav_channels bs = 0 \<Longrightarrow> W = 0" by (simp add: W_def)
  have ok: "frame_ok bs (wav_bitsPer bs) (nat (wav_channels bs)) (wav_data bs)
      \<longleftrightarrow> W = 0 \<or> wav_data bs + W \<le> length bs"
    by (simp add: frame_ok_def W_def)
  have dp: "data_present bs n \<longleftrightarrow> n = 0 \<or> W = 0 \<or> wav_data bs + n * W \<le> length bs"
    by (simp add: data_present_def W_def)
  have "fst (sample_loop bs (wav_bitsPer bs) r (nat (wav_channels bs)) (wav_div r bs) n
          (wav_start r p bs w)) =
     (if n = 0 then None
      else if \<not> (W = 0 \<or> wav_data bs + W \<le> length bs) then Some IndexError
      else if wav_channels bs = 0 then Some ZeroDivisionError
      else if W = 0 \<or> wav_data bs + n * W \<le> length bs then None
      else Some IndexError)"
    by (simp only: sample_loop_result [OF wav_start_index(1)] wav_start_index(2) ok wav_div_eq_0
        flip: W_def)
  also have "\<dots> = (if n = 0 then None
      else if wav_channels bs = 0 then Some ZeroDivisionError
      else if data_present bs n then None
      else Some IndexError)"
  proof (cases "n = 0")
    case True
    then show ?thesis by simp
  next
    case False
    define k where "k = (n - 1) * W"
    have e: "n * W = W + k" using False by (cases n) (simp_all add: k_def)
    from False c show ?thesis by (auto simp: dp e)
  qed
  finally show ?thesis by (simp only: n flip: n_def)
qed

lemma convertWav_outcome:
  "fst (convertWav r p bs w) =
     (if \<not> wav_magic bs then Inr (- 1)
      else if wav_bytesPer bs = 0 then Inl ZeroDivisionError
      else if wav_samples bs \<le> 0 then Inr 1
      else if wav_channels bs = 0 then Inl ZeroDivisionError
      else if data_present bs (nat (wav_samples bs)) then Inr 1
      else Inl IndexError)"
  by (simp add: convertWav_fst wav_loop_result)

subsection \<open>Concrete files\<close>

lemma py_slice_const:
  "0 \<le> a \<Longrightarrow> a \<le> b \<Longrightarrow> nat b \<le> length xs \<Longrightarrow> py_slice xs a b = take (nat (b - a)) (drop (nat a) xs)"
  by (simp add: py_slice_nonneg)

lemma uvalue_2: "uvalue [a, b] = uint a + push_bit 8 (uint b)"
  by (simp add: uvalue_def)

lemma uvalue_4: "uvalue [a, b, c, d] = uint a + push_bit 8 (uint b) + push_bit 16 (uint c) + push_bit 24 (uint d)"
  by (simp add: uvalue_def)

lemma wav_file_fields:
  "wav_magic (wav_file c bp b ds xs)"
  "wav_chunksize (wav_file c bp b ds xs) = 16"
  "wav_channels (wav_file c bp b ds xs) = uint c"
  "wav_rate (wav_file c bp b ds xs) = 8000"
  "wav_bytesPer (wav_file c bp b ds xs) = uint bp"
  "wav_bitsPer (wav_file c bp b ds xs) = uint b"
  "wav_bytesTotal (wav_file c bp b ds xs) = uint ds"
  "wav_data (wav_file c bp b ds xs) = 44"
  "length (wav_file c bp b ds xs) = 44 + length xs"
  by (simp_all add: wav_magic_def wav_chunksize_def wav_channels_def wav_rate_def wav_bytesPer_def
      wav_bitsPer_def wav_bytesTotal_def wav_data_def wav_file_def py_slice_nonneg RIFF_def
      WAVEfmt_def uvalue_2 uvalue_4)

lemma magic_only_fields: "wav_magic magic_only" "wav_bytesPer magic_only = 0"
  by (simp_all add: wav_magic_def wav_bytesPer_def magic_only_def py_slice_nonneg RIFF_def
      WAVEfmt_def uvalue_def)

subsection \<open>The format error\<close>

lemma convertWav_format_error:
  "\<not> wav_magic bs \<Longrightarrow> convertWav r p bs w = (Inr (- 1), put_err ''Not a WAV file\<newline>'' w)"
  by (simp add: convertWav_eq)

text \<open>
  Claim C3, as the source has it. \<^verbatim>\<open>convertWav\<close> ends in the format error (return value
  \<open>- 1\<close>, the message on \<open>stderr\<close>, nothing on \<open>stdout\<close> and nothing handed to the formatter)
  exactly when the magic check fails. A file that passes the magic check never ends in the
  format error; it converts successfully exactly when its bytes-per-frame field is not
  zero and either it declares no sample, or its channel count is not zero and the file
  holds every sample byte the declared frames read. Otherwise the conversion ends in an
  exception that \<^verbatim>\<open>except AssertionError\<close> does not catch: ZeroDivisionError for a zero
  bytes-per-frame field or a zero channel count, IndexError for missing sample bytes.
\<close>

theorem wav_format_error:
  "(fst (convertWav r p bs w) = Inr (- 1) \<longleftrightarrow> \<not> wav_magic bs)
   \<and> (\<not> wav_magic bs \<longrightarrow>
        stdout (snd (convertWav r p bs w)) = stdout w
        \<and> written (snd (convertWav r p bs w)) = written w
        \<and> stderr (snd (convertWav r p bs w)) = stderr w @ [''Not a WAV file\<newline>''])
   \<and> (wav_magic bs \<longrightarrow>
        (fst (convertWav r p bs w) = Inr 1 \<longleftrightarrow>
           wav_bytesPer bs \<noteq> 0
           \<and> (wav_samples bs = 0
               \<or> wav_channels bs \<noteq> 0 \<and> data_present bs (nat (wav_samples bs))))
        \<and> (fst (convertWav r p bs w) = Inl ZeroDivisionError \<longleftrightarrow>
           wav_bytesPer bs = 0 \<or> wav_samples bs \<noteq> 0 \<and> wav_channels bs = 0)
        \<and> (fst (convertWav r p bs w) = Inl IndexError \<longleftrightarrow>
           wav_bytesPer bs \<noteq> 0 \<and> wav_samples bs \<noteq> 0 \<and> wav_channels bs \<noteq> 0
           \<and> \<not> data_present bs (nat (wav_samples bs))))"
proof -
  have n: "wav_samples bs \<le> 0 \<longleftrightarrow> wav_samples bs = 0"
    using wav_samples_nonneg [of bs] by linarith
  show ?thesis
    by (simp add: convertWav_outcome n convertWav_format_error put_err_def)
qed

theorem wav_format_error_witness:
  "\<not> wav_magic []
   \<and> fst (convertWav 8 [] [] world0) = Inr (- 1)
   \<and> stdout (snd (convertWav 8 [] [] world0)) = []
   \<and> wav_magic (wav_file 2 4 16 8 [0, 0, 0, 0, 0, 0, 0, 0])
   \<and> fst (convertWav 8 [] (wav_file 2 4 16 8 [0, 0, 0, 0, 0, 0, 0, 0]) world0) = Inr 1"
proof -
  have a: "\<not> wav_magic []" by (simp add: wav_magic_def py_slice_def RIFF_def)
  have b: "wav_samples (wav_file 2 4 16 8 [0, 0, 0, 0, 0, 0, 0, 0]) = 2"
    by (simp add: wav_samples_def wav_file_fields)
  have c: "data_present (wav_file 2 4 16 8 [0, 0, 0, 0, 0, 0, 0, 0]) 2"
    by (simp add: data_present_def wav_file_fields sample_width_def)
  show ?thesis
    using a b c wav_format_error [of 8 "[]" "[]" world0]
      wav_format_error [of 8 "[]" "wav_file 2 4 16 8 [0, 0, 0, 0, 0, 0, 0, 0]" world0]
    by (simp add: wav_file_fields world0_def)
qed

text \<open>
  Claim C3 as worded fails: the sixteen bytes \<^verbatim>\<open>RIFF\<close>, four zero bytes, \<^verbatim>\<open>WAVEfmt \<close> pass
  the magic check, and the conversion ends in ZeroDivisionError, since every header field
  read past the end of the file is 0.
\<close>

theorem wav_format_error_counterexample:
  "wav_magic magic_only \<and> fst (convertWav 8 [] magic_only world0) = Inl ZeroDivisionError"
  by (simp add: convertWav_outcome magic_only_fields)

subsection \<open>Direct output\<close>

lemma frame_sums_length [simp]: "length (frame_sums bs n) = n"
  by (simp add: frame_sums_def)

lemma convertWav_snd_direct:
  assumes "wav_magic bs" "wav_bytesPer bs \<noteq> 0" "\<not> (wav_bitsPer bs = 16 \<and> r = 10)"
  shows "snd (convertWav r p bs w) =
     snd (hex (snd (sample_loop bs (wav_bitsPer bs) r (nat (wav_channels bs)) (wav_div r bs)
                   (nat (wav_samples bs)) (wav_start r p bs w))))"
  using assms by (auto simp: convertWav_eq split: prod.split option.split)

lemma convertWav_direct:
  assumes "wav_magic bs" "wav_bytesPer bs \<noteq> 0" "\<not> (wav_bitsPer bs = 16 \<and> r = 10)"
  shows "\<exists>k\<le>nat (wav_samples bs).
     snd (convertWav r p bs w) =
       snd (write_all (map (\<lambda>s. s div wav_div r bs) (frame_sums bs k)) (hex (wav_start r p bs w)))
     \<and> (fst (convertWav r p bs w) = Inr 1 \<longleftrightarrow> k = nat (wav_samples bs))"
proof -
  let ?L = "sample_loop bs (wav_bitsPer bs) r (nat (wav_channels bs)) (wav_div r bs)
                   (nat (wav_samples bs)) (wav_start r p bs w)"
  have i: "0 \<le> index_in (wav_start r p bs w)" by (rule wav_start_index)
  from sample_loop_direct [OF i assms(3), where bs = bs
      and c = "nat (wav_channels bs)" and dv = "wav_div r bs" and n = "nat (wav_samples bs)"]
  obtain k where k: "k \<le> nat (wav_samples bs)"
    "hex (snd ?L) = write_all (map (\<lambda>s. s div wav_div r bs)
        (frame_sums_at bs (wav_bitsPer bs) (nat (wav_channels bs)) (nat (index_in (wav_start r p bs w))) k))
        (hex (wav_start r p bs w))"
    "fst ?L = None \<longleftrightarrow> k = nat (wav_samples bs)"
    by (elim exE conjE) (rule that, assumption+)
  have f: "fst (convertWav r p bs w) = Inr 1 \<longleftrightarrow> fst ?L = None"
    using assms(1,2) by (simp add: convertWav_fst split: option.splits)
  show ?thesis
    using k f
    by (intro exI [of _ k])
      (simp add: convertWav_snd_direct [OF assms] wav_start_index(2) frame_sums_def)
qed

lemma frame_sum_other: "b \<noteq> 8 \<Longrightarrow> b \<noteq> 16 \<Longrightarrow> frame_sum bs b c i = 0"
  by (simp add: frame_sum_def sample_at_def)

lemma frame_sums_other:
  "wav_bitsPer bs \<noteq> 8 \<Longrightarrow> wav_bitsPer bs \<noteq> 16 \<Longrightarrow> frame_sums bs n = replicate n 0"
  by (simp add: frame_sums_def frame_sums_at_def frame_sum_other map_replicate_const)

lemma py_slice_take:
  assumes "0 \<le> a" "a \<le> b" "nat b \<le> n"
  shows "py_slice (take n xs) a b = py_slice xs a b"
proof -
  have "nat (b - a) \<le> n - nat a" using assms by linarith
  then show ?thesis
    using assms(1,2) by (simp add: py_slice_nonneg drop_take min_absorb1)
qed

lemma wav_fields_take:
  assumes "max 36 (wav_data bs) \<le> n"
  shows "wav_magic (take n bs) = wav_magic bs"
    "wav_chunksize (take n bs) = wav_chunksize bs"
    "wav_channels (take n bs) = wav_channels bs"
    "wav_rate (take n bs) = wav_rate bs"
    "wav_bytesPer (take n bs) = wav_bytesPer bs"
    "wav_bitsPer (take n bs) = wav_bitsPer bs"
    "wav_bytesTotal (take n bs) = wav_bytesTotal bs"
    "wav_samples (take n bs) = wav_samples bs"
proof -
  have n: "36 \<le> n" "nat (wav_chunksize bs + 28) \<le> n"
    using assms by (simp_all add: wav_data_def)
  show c: "wav_chunksize (take n bs) = wav_chunksize bs"
    using n by (simp add: wav_chunksize_def py_slice_take)
  show "wav_magic (take n bs) = wav_magic bs"
    using n by (simp add: wav_magic_def py_slice_take)
  show "wav_channels (take n bs) = wav_channels bs"
    using n by (simp add: wav_channels_def py_slice_take)
  show "wav_rate (take n bs) = wav_rate bs"
    using n by (simp add: wav_rate_def py_slice_take)
  show p: "wav_bytesPer (take n bs) = wav_bytesPer bs"
    using n by (simp add: wav_bytesPer_def py_slice_take)
  show "wav_bitsPer (take n bs) = wav_bitsPer bs"
    using n by (simp add: wav_bitsPer_def py_slice_take)
  show t: "wav_bytesTotal (take n bs) = wav_bytesTotal bs"
    using n wav_fields_nonneg(1) [of bs] by (simp add: wav_bytesTotal_def c py_slice_take)
  show "wav_samples (take n bs) = wav_samples bs"
    by (simp add: wav_samples_def p t)
qed

lemma convertWav_other_depth:
  assumes "wav_magic bs" "wav_bitsPer bs \<noteq> 8" "wav_bitsPer bs \<noteq> 16" "wav_bytesPer bs \<noteq> 0"
    "wav_channels bs \<noteq> 0 \<or> wav_samples bs = 0"
  shows "convertWav r p bs w =
     (Inr 1, snd (write_all (replicate (nat (wav_samples bs)) 0)
        (HexTable_init (wav_samples bs) 12 2,
         put (wav_header p (wav_rate bs) (wav_samples bs) 8) (put_err ''WAV OK\<newline>'' w))))"
proof -
  have d: "\<not> (wav_bitsPer bs = 16 \<and> r = 10)" using assms(3) by simp
  have ok: "fst (convertWav r p bs w) = Inr 1"
    using assms by (auto simp: convertWav_outcome data_present_def sample_width_def)
  from convertWav_direct [OF assms(1,4) d, of p w] ok
  have "snd (convertWav r p bs w) =
       snd (write_all (map (\<lambda>s. s div wav_div r bs) (frame_sums bs (nat (wav_samples bs))))
         (hex (wav_start r p bs w)))"
    by auto
  then have "snd (convertWav r p bs w) = snd (write_all (replicate (nat (wav_samples bs)) 0)
        (HexTable_init (wav_samples bs) 12 2,
         put (wav_header p (wav_rate bs) (wav_samples bs) 8) (put_err ''WAV OK\<newline>'' w)))"
    using assms(3)
    by (simp add: frame_sums_other [OF assms(2,3)] wav_start_def wav_bits_def map_replicate_const)
  with ok show ?thesis by (simp add: prod_eq_iff)
qed

text \<open>
  Claim C10, as the source has it. Let a file pass the magic check with a bits-per-sample
  field that is neither 8 nor 16, a bytes-per-frame field that is not zero, and a channel
  count that is not zero unless no sample is declared. Then \<^verbatim>\<open>convertWav\<close> returns 1; it
  writes the header constants (with 8 bits) and hands exactly \<open>samples\<close> values to the
  formatter, each of them 0. The run is the same when the file is cut at the data offset
  (or at byte 36, where the header fields end, if that is later): no sample byte is read.
\<close>

theorem wav_other_depth:
  assumes "wav_magic bs" "wav_bitsPer bs \<noteq> 8" "wav_bitsPer bs \<noteq> 16" "wav_bytesPer bs \<noteq> 0"
    "wav_channels bs \<noteq> 0 \<or> wav_samples bs = 0"
  shows "convertWav r p bs w =
           (Inr 1, snd (write_all (replicate (nat (wav_samples bs)) 0)
              (HexTable_init (wav_samples bs) 12 2,
               put (wav_header p (wav_rate bs) (wav_samples bs) 8) (put_err ''WAV OK\<newline>'' w))))
       \<and> written (snd (convertWav r p bs w)) = written w @ replicate (nat (wav_samples bs)) 0
       \<and> convertWav r p (take (max 36 (wav_data bs)) bs) w = convertWav r p bs w"
proof -
  note f = wav_fields_take [OF order_refl, of bs]
  have "convertWav r p (take (max 36 (wav_data bs)) bs) w = convertWav r p bs w"
    using assms
    by (simp add: convertWav_other_depth [of bs]
        convertWav_other_depth [of "take (max 36 (wav_data bs)) bs"] f)
  then show ?thesis
    by (simp add: convertWav_other_depth [OF assms] written_write_all put_def put_err_def)
qed

theorem wav_other_depth_witness:
  "wav_magic (wav_file 1 3 24 6 [])
   \<and> wav_bitsPer (wav_file 1 3 24 6 []) \<noteq> 8 \<and> wav_bitsPer (wav_file 1 3 24 6 []) \<noteq> 16
   \<and> wav_bytesPer (wav_file 1 3 24 6 []) \<noteq> 0
   \<and> wav_channels (wav_file 1 3 24 6 []) \<noteq> 0
   \<and> fst (convertWav 8 [] (wav_file 1 3 24 6 []) world0) = Inr 1
   \<and> written (snd (convertWav 8 [] (wav_file 1 3 24 6 []) world0)) = [0, 0]"
proof -
  have s: "wav_samples (wav_file 1 3 24 6 []) = 2"
    by (simp add: wav_samples_def wav_file_fields)
  have r: "replicate 2 (0::int) = [0, 0]" by (simp add: numeral_2_eq_2)
  show ?thesis
    using wav_other_depth [of "wav_file 1 3 24 6 []" 8 "[]" world0]
    by (simp add: wav_file_fields s r world0_def written_write_all put_def put_err_def)
qed

text \<open>
  Claim C10 as worded fails: a file with 24 bits per sample, 3 bytes per frame, a data
  size of 3 and a channel count of 0 passes the magic check and declares one sample, and
  the division by the channel count raises ZeroDivisionError before anything is handed
  to the formatter.
\<close>

theorem wav_other_depth_counterexample:
  "wav_magic (wav_file 0 3 24 3 [0, 0, 0])
   \<and> wav_bitsPer (wav_file 0 3 24 3 [0, 0, 0]) \<noteq> 8
   \<and> wav_bitsPer (wav_file 0 3 24 3 [0, 0, 0]) \<noteq> 16
   \<and> wav_samples (wav_file 0 3 24 3 [0, 0, 0]) = 1
   \<and> fst (convertWav 8 [] (wav_file 0 3 24 3 [0, 0, 0]) world0) = Inl ZeroDivisionError"
  by (simp add: convertWav_outcome wav_file_fields wav_samples_def)

subsection \<open>The values of an audio conversion\<close>

lemma wav_start_pack_inv: "pack_inv [] (wav_start r p bs w)"
  by (simp add: pack_inv_def wav_start_def)

lemma convertWav_pack:
  assumes "wav_magic bs" "wav_bytesPer bs \<noteq> 0" "wav_bitsPer bs = 16"
  shows "\<exists>k\<le>nat (wav_samples bs).
     snd (convertWav 10 p bs w) =
       snd (write_all (if fst (convertWav 10 p bs w) = Inr 1 then pack10 (wav_scaled 10 bs k)
                       else pack10 (full_groups (wav_scaled 10 bs k)))
              (hex (wav_start 10 p bs w)))
     \<and> (fst (convertWav 10 p bs w) = Inr 1 \<longleftrightarrow> k = nat (wav_samples bs))"
proof -
  let ?L = "sample_loop bs 16 10 (nat (wav_channels bs)) (wav_div 10 bs)
                   (nat (wav_samples bs)) (wav_start 10 p bs w)"
  have i: "0 \<le> index_in (wav_start 10 p bs w)" by (rule wav_start_index)
  from sample_loop_pack [OF i wav_start_pack_inv, where bs = bs
      and c = "nat (wav_channels bs)" and dv = "wav_div 10 bs" and n = "nat (wav_samples bs)"]
  obtain k where k: "k \<le> nat (wav_samples bs)"
    "hex (snd ?L) = write_all (pack10 (full_groups (wav_scaled 10 bs k))) (hex (wav_start 10 p bs w))"
    "pack_inv (pending (wav_scaled 10 bs k)) (snd ?L)"
    "fst ?L = None \<longleftrightarrow> k = nat (wav_samples bs)"
    by (elim exE conjE)
      (rule that, simp_all add: wav_scaled_def frame_sums_def wav_start_index(2) assms(3))
  have c: "convertWav 10 p bs w =
     (case ?L of
        (Some e, st') \<Rightarrow> (Inl e, snd (hex st'))
      | (None, st') \<Rightarrow>
          if bufIdx st' > 1 then (Inr 1, snd (write_all (buf st') (hex st')))
          else (Inr 1, snd (hex st')))"
    using assms by (simp add: convertWav_eq split: prod.split option.split)
  obtain res st' where L: "?L = (res, st')" by (cases ?L)
  show ?thesis
  proof (cases res)
    case (Some e)
    with k L c show ?thesis by (intro exI [of _ k]) simp
  next
    case None
    from k(3) L have inv: "bufIdx st' = length (pending (wav_scaled 10 bs k)) + 1"
      "buf st' = (if pending (wav_scaled 10 bs k) = [] then [0, 0, 0, 0, 0]
                  else pack10 (pending (wav_scaled 10 bs k)))"
      by (simp_all add: pack_inv_def)
    have h: "hex st' = write_all (pack10 (full_groups (wav_scaled 10 bs k))) (hex (wav_start 10 p bs w))"
      using k(2) L by simp
    have "snd (convertWav 10 p bs w) =
      snd (write_all (pack10 (full_groups (wav_scaled 10 bs k)) @ pack10 (pending (wav_scaled 10 bs k)))
            (hex (wav_start 10 p bs w)))"
      using None L by (simp add: c inv h write_all_append)
    moreover have "fst (convertWav 10 p bs w) = Inr 1" using None L by (simp add: c)
    ultimately show ?thesis
      using k(1,4) None L by (intro exI [of _ k]) (simp add: pack10_groups)
  qed
qed

lemma length_pack10: "length (pack10 ss) = 5 * ((length ss + 3) div 4)"
proof (induction ss rule: pack10.induct)
  case (1 s0 s1 s2 s3 ss)
  have "(length (s0 # s1 # s2 # s3 # ss) + 3) div 4 = Suc ((length ss + 3) div 4)" by simp
  with 1 show ?case by (simp del: div_add_self1 div_add_self2)
qed simp_all

lemma length_wav_scaled [simp]: "length (wav_scaled r bs k) = k"
  by (simp add: wav_scaled_def)

lemma length_wav_output: "length (wav_output r bs) = nat (wav_count r bs)"
proof -
  have "nat (5 * ((wav_samples bs + 3) div 4)) = 5 * ((nat (wav_samples bs) + 3) div 4)"
    using wav_samples_nonneg [of bs]
    by (simp add: nat_mult_distrib nat_div_distrib nat_add_distrib)
  then show ?thesis by (simp add: wav_output_def wav_count_def length_pack10)
qed

lemma convertWav_success:
  assumes "fst (convertWav r p bs w) = Inr 1"
  shows "snd (convertWav r p bs w) = snd (write_all (wav_output r bs) (hex (wav_start r p bs w)))"
proof -
  from assms have m: "wav_magic bs" "wav_bytesPer bs \<noteq> 0"
    by (simp_all add: convertWav_outcome split: if_splits)
  show ?thesis
  proof (cases "wav_bitsPer bs = 16 \<and> r = 10")
    case True
    then have b: "wav_bitsPer bs = 16" and r: "r = 10" by simp_all
    from convertWav_pack [OF m b, of p w] assms b show ?thesis unfolding r
      by (auto simp: wav_output_def)
  next
    case False
    with convertWav_direct [OF m False, of p w] assms show ?thesis
      by (auto simp: wav_output_def wav_scaled_def)
  qed
qed

lemma convertWav_written:
  "\<exists>k\<le>nat (wav_samples bs).
     written (snd (convertWav r p bs w)) = written w @
       (if wav_bitsPer bs = 16 \<and> r = 10
        then (if fst (convertWav r p bs w) = Inr 1 then pack10 (wav_scaled r bs k)
              else pack10 (full_groups (wav_scaled r bs k)))
        else wav_scaled r bs k)
     \<and> (fst (convertWav r p bs w) = Inr 1 \<longrightarrow> k = nat (wav_samples bs))
     \<and> (fst (convertWav r p bs w) \<noteq> Inr 1 \<longrightarrow> k < nat (wav_samples bs) \<or> k = 0)"
proof (cases "wav_magic bs \<and> wav_bytesPer bs \<noteq> 0")
  case False
  then have "written (snd (convertWav r p bs w)) = written w" "fst (convertWav r p bs w) \<noteq> Inr 1"
    by (auto simp: convertWav_eq put_err_def)
  then show ?thesis
    by (intro exI [of _ 0]) (simp add: wav_scaled_def frame_sums_def full_groups_def)
next
  case True
  then have m: "wav_magic bs" "wav_bytesPer bs \<noteq> 0" by simp_all
  have w0: "written (snd (hex (wav_start r p bs w))) = written w"
    by (simp add: wav_start_def put_def put_err_def)
  show ?thesis
  proof (cases "wav_bitsPer bs = 16 \<and> r = 10")
    case True
    then have b: "wav_bitsPer bs = 16" and r: "r = 10" by simp_all
    from convertWav_pack [OF m b, of p w] obtain k where "k \<le> nat (wav_samples bs)"
      "snd (convertWav 10 p bs w) =
       snd (write_all (if fst (convertWav 10 p bs w) = Inr 1 then pack10 (wav_scaled 10 bs k)
                       else pack10 (full_groups (wav_scaled 10 bs k)))
              (hex (wav_start 10 p bs w)))"
      "fst (convertWav 10 p bs w) = Inr 1 \<longleftrightarrow> k = nat (wav_samples bs)"
      by (elim exE conjE) (rule that, assumption+)
    with b w0 show ?thesis unfolding r
      by (intro exI [of _ k]) (auto simp: written_write_all)
  next
    case False
    from convertWav_direct [OF m False, of p w] obtain k where "k \<le> nat (wav_samples bs)"
      "snd (convertWav r p bs w) =
       snd (write_all (wav_scaled r bs k) (hex (wav_start r p bs w)))"
      "fst (convertWav r p bs w) = Inr 1 \<longleftrightarrow> k = nat (wav_samples bs)"
      by (elim exE conjE) (rule that; simp add: wav_scaled_def)
    with False w0 show ?thesis
      by (intro exI [of _ k]) (auto simp: written_write_all)
  qed
qed

subsection \<open>Bounds of the audio values\<close>

lemma raw16_bounds: "0 \<le> raw16 bs i \<and> raw16 bs i < 65536"
proof -
  have "uint (bs ! i) < 256" "0 \<le> uint (bs ! i)" "uint (bs ! (i + 1)) < 256" "0 \<le> uint (bs ! (i + 1))"
    using uint_bounded [of "bs ! i"] uint_bounded [of "bs ! (i + 1)"] by simp_all
  then show ?thesis by (simp add: raw16_def push_bit_eq_mult)
qed

lemma top_bit_16:
  assumes "0 \<le> x" "x < 65536"
  shows "x AND 0x8000 \<noteq> 0 \<longleftrightarrow> 32768 \<le> (x::int)"
proof -
  have "x AND 0x8000 = x AND 2 ^ 15" by simp
  also have "\<dots> \<noteq> 0 \<longleftrightarrow> bit x 15" by (simp only: and_exp_eq_0_iff_not_bit) simp
  also have "\<dots> \<longleftrightarrow> odd (x div 2 ^ 15)" by (simp add: bit_iff_odd)
  also have "\<dots> \<longleftrightarrow> 32768 \<le> x"
  proof
    assume "odd (x div 2 ^ 15)"
    then have "x div 2 ^ 15 \<noteq> 0" by auto
    then show "32768 \<le> x" using assms by (simp add: div_pos_pos_trivial) 
  next
    assume "32768 \<le> x"
    then have "x div 2 ^ 15 = 1" using assms by simp
    then show "odd (x div 2 ^ 15)" by simp
  qed
  finally show ?thesis .
qed

lemma offset16_bounds:
  assumes "0 \<le> x" "x < 65536"
  shows "0 \<le> offset16 x \<and> offset16 x < 65536"
  using assms top_bit_16 [OF assms] by (auto simp: offset16_def)

lemma sample_at_bounds: "0 \<le> sample_at bs b i \<and> sample_at bs b i \<le> sample_max b"
proof -
  have "uint (bs ! i) < 256" "0 \<le> uint (bs ! i)" using uint_bounded [of "bs ! i"] by simp_all
  moreover have "0 \<le> offset16 (raw16 bs i) \<and> offset16 (raw16 bs i) < 65536"
    using raw16_bounds [of bs i] by (intro offset16_bounds) simp_all
  ultimately show ?thesis by (simp add: sample_at_def sample_max_def)
qed

lemma sum_list_bounds:
  assumes "\<And>x. x \<in> set xs \<Longrightarrow> 0 \<le> f x \<and> f x \<le> (m::int)"
  shows "0 \<le> sum_list (map f xs) \<and> sum_list (map f xs) \<le> int (length xs) * m"
  using assms
proof (induction xs)
  case Nil
  show ?case by simp
next
  case (Cons x xs)
  then have "0 \<le> f x \<and> f x \<le> m" "0 \<le> sum_list (map f xs) \<and> sum_list (map f xs) \<le> int (length xs) * m"
    by simp_all
  then show ?case by (simp add: algebra_simps)
qed

lemma frame_sum_bounds: "0 \<le> frame_sum bs b c i \<and> frame_sum bs b c i \<le> int c * sample_max b"
  unfolding frame_sum_def
  using sum_list_bounds [of "[0..<c]" "\<lambda>k. sample_at bs b (i + k * sample_width b)" "sample_max b"]
    sample_at_bounds
  by simp

lemma int_div_less:
  fixes s d t :: int
  assumes "0 < d" "s < t * d"
  shows "s div d < t"
proof (rule ccontr)
  assume "\<not> s div d < t"
  then have "t * d \<le> (s div d) * d" using assms(1) by (simp add: mult_right_mono)
  moreover have "(s div d) * d + s mod d = s" by simp
  moreover have "0 \<le> s mod d" using assms(1) by simp
  ultimately show False using assms(2) by linarith
qed

lemma div_scaled_bound:
  fixes s :: int
  assumes "0 \<le> s" "s \<le> c * m" "0 \<le> c" "0 < q" "m < q * t" "0 < t"
  shows "0 \<le> s div (c * q) \<and> s div (c * q) < t"
proof (cases "c = 0")
  case True
  with assms show ?thesis by simp
next
  case False
  with assms have c: "0 < c" by simp
  then have d: "0 < c * q" using assms(4) by simp
  have "c * m < c * (q * t)" using c assms(5) by simp
  with assms(2) have "s < t * (c * q)" by (simp add: ac_simps)
  with d have "s div (c * q) < t" by (rule int_div_less)
  moreover have "0 \<le> s div (c * q)" using assms(1) d by (simp add: pos_imp_zdiv_nonneg_iff)
  ultimately show ?thesis by simp
qed

lemma scaled_bounds_direct:
  assumes "\<not> (wav_bitsPer bs = 16 \<and> r = 10)" "v \<in> set (wav_scaled r bs k)"
  shows "0 \<le> v \<and> v < 256"
proof -
  from assms(2) obtain i where v: "v = frame_sum bs (wav_bitsPer bs) (nat (wav_channels bs)) i div wav_div r bs"
    by (auto simp: wav_scaled_def frame_sums_def frame_sums_at_def)
  note b = frame_sum_bounds [of bs "wav_bitsPer bs" "nat (wav_channels bs)" i]
  note c = wav_fields_nonneg(2) [of bs]
  consider "wav_bitsPer bs = 8" | "wav_bitsPer bs = 16" "r \<noteq> 10"
    | "wav_bitsPer bs \<noteq> 8" "wav_bitsPer bs \<noteq> 16"
    using assms(1) by blast
  then show ?thesis
  proof cases
    case 1
    with b c div_scaled_bound [of "frame_sum bs 8 (nat (wav_channels bs)) i" "wav_channels bs" 255 1 256]
    show ?thesis by (simp add: v wav_div_def sample_max_def)
  next
    case 2
    with b c div_scaled_bound [of "frame_sum bs 16 (nat (wav_channels bs)) i" "wav_channels bs" 65535 256 256]
    show ?thesis by (simp add: v wav_div_def sample_max_def)
  next
    case 3
    then show ?thesis by (simp add: v frame_sum_other)
  qed
qed

lemma scaled_bounds_pack:
  assumes "wav_bitsPer bs = 16" "v \<in> set (wav_scaled 10 bs k)"
  shows "0 \<le> v \<and> v < 1024"
proof -
  from assms obtain i where v: "v = frame_sum bs 16 (nat (wav_channels bs)) i div (wav_channels bs * 64)"
    by (auto simp: wav_scaled_def frame_sums_def frame_sums_at_def wav_div_def)
  note b = frame_sum_bounds [of bs 16 "nat (wav_channels bs)" i]
  note c = wav_fields_nonneg(2) [of bs]
  from b c div_scaled_bound [of "frame_sum bs 16 (nat (wav_channels bs)) i" "wav_channels bs" 65535 64 1024]
  show ?thesis by (simp add: v sample_max_def)
qed

lemma low_byte_bounds: "0 \<le> (s::int) AND 0xFF \<and> s AND 0xFF < 256"
proof -
  have "s AND 0xFF \<le> 0xFF" by (rule AND_upper2') simp_all
  then show ?thesis by simp
qed

lemma top_bits_bounds:
  assumes "0 \<le> s" "s < 1024"
  shows "0 \<le> drop_bit 8 (s::int) \<and> drop_bit 8 s < 4"
  using assms by (simp add: drop_bit_eq_div div_int_pos_iff)

lemma or_bound8:
  fixes a b :: int
  assumes "0 \<le> a" "a < 256" "0 \<le> b" "b < 256"
  shows "0 \<le> a OR b \<and> a OR b < 256"
proof -
  have "a OR b < 2 ^ 8" using assms by (intro OR_upper) simp_all
  with assms show ?thesis by simp
qed

lemma pack10_bounds:
  assumes "\<forall>s \<in> set ss. 0 \<le> s \<and> s < 1024"
  shows "\<forall>v \<in> set (pack10 ss). 0 \<le> v \<and> v < 256"
  using assms
proof (induction ss rule: pack10.induct)
  case (1 s0 s1 s2 s3 ss)
  then have t: "0 \<le> drop_bit 8 s0 \<and> drop_bit 8 s0 < 4" "0 \<le> drop_bit 8 s1 \<and> drop_bit 8 s1 < 4"
    "0 \<le> drop_bit 8 s2 \<and> drop_bit 8 s2 < 4" "0 \<le> drop_bit 8 s3 \<and> drop_bit 8 s3 < 4"
    by (simp_all add: top_bits_bounds)
  then have p: "0 \<le> push_bit 6 (drop_bit 8 s0) \<and> push_bit 6 (drop_bit 8 s0) < 256"
    "0 \<le> push_bit 4 (drop_bit 8 s1) \<and> push_bit 4 (drop_bit 8 s1) < 256"
    "0 \<le> push_bit 2 (drop_bit 8 s2) \<and> push_bit 2 (drop_bit 8 s2) < 256"
    by (simp_all add: push_bit_eq_mult)
  have "0 \<le> push_bit 6 (drop_bit 8 s0) OR push_bit 4 (drop_bit 8 s1) OR push_bit 2 (drop_bit 8 s2)
        OR drop_bit 8 s3
      \<and> push_bit 6 (drop_bit 8 s0) OR push_bit 4 (drop_bit 8 s1) OR push_bit 2 (drop_bit 8 s2)
        OR drop_bit 8 s3 < 256"
    using p t by (intro or_bound8) (simp_all add: or_bound8)
  with 1 show ?case by (simp add: low_byte_bounds)
next
  case (2 s0 s1 s2)
  then have t: "0 \<le> drop_bit 8 s0 \<and> drop_bit 8 s0 < 4" "0 \<le> drop_bit 8 s1 \<and> drop_bit 8 s1 < 4"
    "0 \<le> drop_bit 8 s2 \<and> drop_bit 8 s2 < 4"
    by (simp_all add: top_bits_bounds)
  then have p: "0 \<le> push_bit 4 (drop_bit 8 s0) \<and> push_bit 4 (drop_bit 8 s0) < 256"
    "0 \<le> push_bit 2 (drop_bit 8 s1) \<and> push_bit 2 (drop_bit 8 s1) < 256"
    by (simp_all add: push_bit_eq_mult)
  have "0 \<le> push_bit 4 (drop_bit 8 s0) OR push_bit 2 (drop_bit 8 s1) OR drop_bit 8 s2
      \<and> push_bit 4 (drop_bit 8 s0) OR push_bit 2 (drop_bit 8 s1) OR drop_bit 8 s2 < 256"
    using p t by (intro or_bound8) (simp_all add: or_bound8)
  then show ?case by (simp add: low_byte_bounds)
next
  case (3 s0 s1)
  then have t: "0 \<le> drop_bit 8 s0 \<and> drop_bit 8 s0 < 4" "0 \<le> drop_bit 8 s1 \<and> drop_bit 8 s1 < 4"
    by (simp_all add: top_bits_bounds)
  then have p: "0 \<le> push_bit 2 (drop_bit 8 s0) \<and> push_bit 2 (drop_bit 8 s0) < 256"
    by (simp_all add: push_bit_eq_mult)
  have "0 \<le> push_bit 2 (drop_bit 8 s0) OR drop_bit 8 s1
      \<and> push_bit 2 (drop_bit 8 s0) OR drop_bit 8 s1 < 256"
    using p t by (intro or_bound8) simp_all
  then show ?case by (simp add: low_byte_bounds)
next
  case (4 s0)
  then have "0 \<le> drop_bit 8 s0 \<and> drop_bit 8 s0 < 4" by (simp add: top_bits_bounds)
  then show ?case by (simp add: low_byte_bounds)
next
  case 5
  show ?case by simp
qed

lemma set_full_groups: "set (full_groups ss) \<subseteq> set ss"
  by (simp add: full_groups_def set_take_subset)

lemma wav_values_bytes: "\<forall>v \<in> set (wav_values r bs). 0 \<le> v \<and> v < 256"
proof -
  from convertWav_written [of bs r "[]" world0] obtain k where
    k: "wav_values r bs =
       (if wav_bitsPer bs = 16 \<and> r = 10
        then (if fst (convertWav r [] bs world0) = Inr 1 then pack10 (wav_scaled r bs k)
              else pack10 (full_groups (wav_scaled r bs k)))
        else wav_scaled r bs k)"
    by (auto simp: wav_values_def world0_def)
  show ?thesis
  proof (cases "wav_bitsPer bs = 16 \<and> r = 10")
    case True
    then have s: "\<forall>s \<in> set (wav_scaled r bs k). 0 \<le> s \<and> s < 1024"
      using scaled_bounds_pack [of bs _ k] by simp
    then have "\<forall>s \<in> set (full_groups (wav_scaled r bs k)). 0 \<le> s \<and> s < 1024"
      using set_full_groups [of "wav_scaled r bs k"] by blast
    with s True show ?thesis
      unfolding k
      using pack10_bounds [of "wav_scaled r bs k"] pack10_bounds [of "full_groups (wav_scaled r bs k)"]
      by simp
  next
    case False
    then show ?thesis unfolding k using scaled_bounds_direct [OF False] by auto
  qed
qed

subsection \<open>A file of silence\<close>

lemma wav_values_success:
  "fst (convertWav r [] bs world0) = Inr 1 \<Longrightarrow> wav_values r bs = wav_output r bs"
  by (simp add: wav_values_def convertWav_success written_write_all wav_start_def put_def
      put_err_def world0_def)

lemma silence_values: "wav_values 8 (wav_file 2 4 16 8 [0, 0, 0, 0, 0, 0, 0, 0]) = [128, 128]"
proof -
  let ?W = "wav_file 2 4 16 8 [0, 0, 0, 0, 0, 0, 0, 0]"
  have s: "wav_samples ?W = 2" by (simp add: wav_samples_def wav_file_fields)
  have ok: "fst (convertWav 8 [] ?W world0) = Inr 1"
    by (simp add: convertWav_outcome wav_file_fields s data_present_def sample_width_def)
  have z: "\<And>i. 44 \<le> i \<Longrightarrow> i < 52 \<Longrightarrow> ?W ! i = 0"
    by (simp add: wav_file_def RIFF_def WAVEfmt_def nth_Cons' nth_append)
  have u: "[0..<2] = [0, Suc 0]" by (simp add: numeral_2_eq_2)
  have "wav_output 8 ?W = [128, 128]"
    by (simp add: wav_output_def wav_scaled_def frame_sums_def frame_sums_at_def frame_sum_def
        sample_at_def sample_width_def raw16_def offset16_def wav_div_def wav_file_fields s u z)
  with ok show ?thesis by (simp add: wav_values_success)
qed

subsection \<open>Sample values\<close>

lemma wav_file_data: "wav_file c bp b ds xs ! (44 + i) = xs ! i"
proof -
  define H where "H = RIFF @ [0, 0, 0, 0] @ WAVEfmt @ [16, 0, 0, 0] @ [1, 0] @ [c, 0] @
     [0x40, 0x1F, 0, 0] @ [0, 0, 0, 0] @ [bp, 0] @ [b, 0] @ [0x64, 0x61, 0x74, 0x61] @ [ds, 0, 0, 0]"
  have "wav_file c bp b ds xs = H @ xs" by (simp add: wav_file_def H_def)
  moreover have "length H = 44" by (simp add: H_def RIFF_def WAVEfmt_def)
  ultimately show ?thesis by (metis nth_append_length_plus)
qed

lemma wav_values_direct:
  assumes "\<not> (wav_bitsPer bs = 16 \<and> r = 10)"
  shows "\<exists>k\<le>nat (wav_samples bs). wav_values r bs = wav_scaled r bs k"
  using convertWav_written [of bs r "[]" world0] assms
  by (auto simp: wav_values_def world0_def)

lemma nth_wav_scaled:
  "i < k \<Longrightarrow> wav_scaled r bs k ! i =
     frame_sum bs (wav_bitsPer bs) (nat (wav_channels bs))
       (wav_data bs + i * (nat (wav_channels bs) * sample_width (wav_bitsPer bs))) div wav_div r bs"
  by (simp add: wav_scaled_def frame_sums_def frame_sums_at_def)

text \<open>
  Claim C5. For a 16-bit source in 8-bit output mode, the value written for frame \<open>i\<close> is
  the sum over the channels of the offset-converted 16-bit samples of that frame, floor
  divided by \<open>channels * 256\<close>; a stereo frame whose two raw samples are 0 gives 128.
\<close>

theorem wav_reduce_16_to_8:
  assumes "wav_bitsPer bs = 16" "r \<noteq> 10" "i < length (wav_values r bs)"
  shows "wav_values r bs ! i =
           sum_list (map (\<lambda>c. offset16 (raw16 bs (wav_data bs + i * (nat (wav_channels bs) * 2) + c * 2)))
                      [0..<nat (wav_channels bs)])
             div (wav_channels bs * 256)
       \<and> (wav_channels bs = 2
            \<and> raw16 bs (wav_data bs + i * 4) = 0 \<and> raw16 bs (wav_data bs + i * 4 + 2) = 0
            \<longrightarrow> wav_values r bs ! i = 128)"
proof -
  have d: "\<not> (wav_bitsPer bs = 16 \<and> r = 10)" using assms(2) by simp
  from wav_values_direct [OF d] obtain k where k: "wav_values r bs = wav_scaled r bs k" by blast
  with assms(3) have i: "i < k" by simp
  have v: "wav_values r bs ! i =
           sum_list (map (\<lambda>c. offset16 (raw16 bs (wav_data bs + i * (nat (wav_channels bs) * 2) + c * 2)))
                      [0..<nat (wav_channels bs)])
             div (wav_channels bs * 256)"
    using assms(1,2)
    by (simp add: k nth_wav_scaled [OF i] frame_sum_def sample_at_def sample_width_def wav_div_def)
  have u: "[0..<2] = [0, Suc 0]" by (simp add: numeral_2_eq_2)
  have "wav_values r bs ! i = 128"
    if "wav_channels bs = 2" "raw16 bs (wav_data bs + i * 4) = 0" "raw16 bs (wav_data bs + i * 4 + 2) = 0"
    using that by (simp add: v u offset16_def)
  with v show ?thesis by blast
qed

theorem wav_reduce_16_to_8_witness:
  "wav_bitsPer (wav_file 2 4 16 8 [0, 0, 0, 0, 0, 0, 0, 0]) = 16 \<and> (8::int) \<noteq> 10
   \<and> 1 < length (wav_values 8 (wav_file 2 4 16 8 [0, 0, 0, 0, 0, 0, 0, 0]))
   \<and> wav_channels (wav_file 2 4 16 8 [0, 0, 0, 0, 0, 0, 0, 0]) = 2
   \<and> raw16 (wav_file 2 4 16 8 [0, 0, 0, 0, 0, 0, 0, 0])
        (wav_data (wav_file 2 4 16 8 [0, 0, 0, 0, 0, 0, 0, 0]) + 1 * 4) = 0
   \<and> raw16 (wav_file 2 4 16 8 [0, 0, 0, 0, 0, 0, 0, 0])
        (wav_data (wav_file 2 4 16 8 [0, 0, 0, 0, 0, 0, 0, 0]) + 1 * 4 + 2) = 0
   \<and> wav_values 8 (wav_file 2 4 16 8 [0, 0, 0, 0, 0, 0, 0, 0]) ! 1 = 128"
proof -
  let ?W = "wav_file 2 4 16 8 [0, 0, 0, 0, 0, 0, 0, 0]"
  have z: "?W ! (44 + 4) = 0" "?W ! (44 + 5) = 0" "?W ! (44 + 6) = 0" "?W ! (44 + 7) = 0"
    by (simp_all only: wav_file_data) simp_all
  have l: "1 < length (wav_values 8 ?W)" by (simp add: silence_values)
  have a: "raw16 ?W (wav_data ?W + 1 * 4) = 0" "raw16 ?W (wav_data ?W + 1 * 4 + 2) = 0"
    using z by (simp_all add: raw16_def wav_file_fields)
  have b: "wav_bitsPer ?W = 16" "wav_channels ?W = 2" by (simp_all add: wav_file_fields)
  from wav_reduce_16_to_8 [of ?W 8 1, OF b(1) _ l] a b l show ?thesis by simp
qed

text \<open>
  Claim C4. In 10-bit mode a successful conversion of a 16-bit source hands to the
  formatter the 10-bit packing of the channel sums divided by \<open>channels * 64\<close>: five bytes
  for every four samples, the first \<open>((s0 >> 8) << 6) OR ((s1 >> 8) << 4) OR ((s2 >> 8) << 2)
  OR (s3 >> 8)\<close>, the next four the low bytes of \<open>s0\<close> to \<open>s3\<close>; and five bytes for a last
  group of one to three samples, the bytes of the missing samples zero. Every divided sum
  is in \<open>0..1023\<close>.
\<close>

theorem wav_pack_10_bit:
  assumes "wav_bitsPer bs = 16" "fst (convertWav 10 p bs w) = Inr 1"
  shows "written (snd (convertWav 10 p bs w)) =
           written w @ pack10 (map (\<lambda>s. s div (wav_channels bs * 64))
                                 (frame_sums bs (nat (wav_samples bs))))
       \<and> (\<forall>s \<in> set (frame_sums bs (nat (wav_samples bs))).
             0 \<le> s div (wav_channels bs * 64) \<and> s div (wav_channels bs * 64) \<le> 1023)"
proof -
  have s: "wav_scaled 10 bs k = map (\<lambda>s. s div (wav_channels bs * 64)) (frame_sums bs k)" for k
    using assms(1) by (simp add: wav_scaled_def wav_div_def)
  have "written (snd (convertWav 10 p bs w)) = written w @ wav_output 10 bs"
    by (simp add: convertWav_success [OF assms(2)] written_write_all wav_start_def put_def put_err_def)
  then have a: "written (snd (convertWav 10 p bs w)) =
           written w @ pack10 (map (\<lambda>s. s div (wav_channels bs * 64))
                                 (frame_sums bs (nat (wav_samples bs))))"
    using assms(1) by (simp add: wav_output_def s)
  have "0 \<le> v \<and> v \<le> 1023" if "v \<in> set (wav_scaled 10 bs (nat (wav_samples bs)))" for v
    using scaled_bounds_pack [OF assms(1) that] by simp
  then have "\<forall>s \<in> set (frame_sums bs (nat (wav_samples bs))).
             0 \<le> s div (wav_channels bs * 64) \<and> s div (wav_channels bs * 64) \<le> 1023"
    by (simp add: s)
  with a show ?thesis by blast
qed

theorem wav_pack_10_bit_witness:
  "wav_bitsPer (wav_file 1 2 16 12 [0, 0x80, 1, 0x80, 2, 0x80, 0xC0, 0x7F, 0xC0, 0x7F, 0, 0x80]) = 16
   \<and> fst (convertWav 10 [] (wav_file 1 2 16 12 [0, 0x80, 1, 0x80, 2, 0x80, 0xC0, 0x7F, 0xC0, 0x7F, 0, 0x80]) world0) = Inr 1
   \<and> written (snd (convertWav 10 [] (wav_file 1 2 16 12 [0, 0x80, 1, 0x80, 2, 0x80, 0xC0, 0x7F, 0xC0, 0x7F, 0, 0x80]) world0))
       = [3, 0, 0, 0, 255, 12, 255, 0, 0, 0]"
proof -
  let ?W = "wav_file 1 2 16 12 [0, 0x80, 1, 0x80, 2, 0x80, 0xC0, 0x7F, 0xC0, 0x7F, 0, 0x80]"
  have s: "wav_samples ?W = 6" by (simp add: wav_samples_def wav_file_fields)
  have b: "wav_bitsPer ?W = 16" by (simp add: wav_file_fields)
  have ok: "fst (convertWav 10 [] ?W world0) = Inr 1"
    by (simp add: convertWav_outcome wav_file_fields s data_present_def sample_width_def)
  have u: "[0..<6] = [0, 1, 2, 3, 4, 5]" by (simp add: upt_rec)
  have d': "?W ! (44 + 0) = 0" "?W ! (44 + 1) = 0x80" "?W ! (44 + 2) = 1" "?W ! (44 + 3) = 0x80"
    "?W ! (44 + 4) = 2" "?W ! (44 + 5) = 0x80" "?W ! (44 + 6) = 0xC0" "?W ! (44 + 7) = 0x7F"
    "?W ! (44 + 8) = 0xC0" "?W ! (44 + 9) = 0x7F" "?W ! (44 + 10) = 0" "?W ! (44 + 11) = 0x80"
    by (simp_all only: wav_file_data) simp_all
  have d: "?W ! 44 = 0" "?W ! 45 = 0x80" "?W ! 46 = 1" "?W ! 47 = 0x80" "?W ! 48 = 2"
    "?W ! 49 = 0x80" "?W ! 50 = 0xC0" "?W ! 51 = 0x7F" "?W ! 52 = 0xC0" "?W ! 53 = 0x7F"
    "?W ! 54 = 0" "?W ! 55 = 0x80"
    using d' by simp_all
  have f: "frame_sums ?W 6 = [0, 1, 2, 65472, 65472, 0]"
    by (simp add: frame_sums_def frame_sums_at_def frame_sum_def sample_at_def sample_width_def
      raw16_def offset16_def wav_file_fields u d)
  have w: "written world0 = []" by (simp add: world0_def)
  from wav_pack_10_bit [OF b ok] show ?thesis
    by (simp add: b ok s f wav_file_fields w)
qed

subsection \<open>Declared and written element counts\<close>

lemma counter_write_all:
  "hexCounter (fst (write_all vs s)) = hexCounter (fst s) + int (length vs)"
  "hexLimit (fst (write_all vs s)) = hexLimit (fst s)"
  by (induction vs rule: rev_induct) (simp_all add: write_all_snoc table_write_hex)

lemma format_hex_no_brace:
  "format_hex n wd \<noteq> '' };\<newline>''" "'' };\<newline>'' \<noteq> format_hex n wd"
  by (simp_all add: format_hex_def Let_def)

lemma world0_fields: "stdout world0 = []" "stderr world0 = []" "written world0 = []"
  by (simp_all add: world0_def)

lemma write_hex_open:
  assumes "hexCounter (fst s) + 1 < hexLimit (fst s)"
  shows "\<exists>body. stdout (snd (write_hex v s)) = stdout (snd s) @ body \<and> '' };\<newline>'' \<notin> set body"
  using assms by (simp add: stdout_write_hex format_hex_no_brace)

lemma write_all_open:
  assumes "hexCounter (fst s) + int (length vs) < hexLimit (fst s)"
  shows "\<exists>body. stdout (snd (write_all vs s)) = stdout (snd s) @ body \<and> '' };\<newline>'' \<notin> set body"
  using assms
proof (induction vs rule: rev_induct)
  case Nil
  show ?case by simp
next
  case (snoc v vs)
  then obtain body where b: "stdout (snd (write_all vs s)) = stdout (snd s) @ body"
    "'' };\<newline>'' \<notin> set body"
    by auto
  have "hexCounter (fst (write_all vs s)) + 1 < hexLimit (fst (write_all vs s))"
    using snoc.prems by (simp add: counter_write_all)
  from write_hex_open [OF this, of v] obtain body' where
    "stdout (snd (write_hex v (write_all vs s))) = stdout (snd (write_all vs s)) @ body'"
    "'' };\<newline>'' \<notin> set body'"
    by auto
  with b show ?case
    by (intro exI [of _ "body @ body'"]) (simp add: write_all_snoc)
qed

lemma write_all_closes:
  assumes "hexCounter (fst s) + int (length vs) = hexLimit (fst s)" "vs \<noteq> []"
  shows "\<exists>body. stdout (snd (write_all vs s)) = stdout (snd s) @ body @ ['' };\<newline>'', ''\<newline>'']
           \<and> '' };\<newline>'' \<notin> set body"
proof -
  from assms(2) obtain us v where vs: "vs = us @ [v]" by (cases vs rule: rev_cases) auto
  have "hexCounter (fst s) + int (length us) < hexLimit (fst s)" using assms(1) by (simp add: vs)
  from write_all_open [OF this] obtain body where b:
    "stdout (snd (write_all us s)) = stdout (snd s) @ body" "'' };\<newline>'' \<notin> set body"
    by auto
  have c: "hexCounter (fst (write_all us s)) + 1 \<ge> hexLimit (fst (write_all us s))"
    using assms(1) by (simp add: vs counter_write_all)
  let ?t = "write_all us s"
  let ?mid = "(if hexCounter (fst ?t) > 0
               then (if hexColumn (fst ?t) < hexColumns (fst ?t) - 1 then ['','', '' ''] else ['',''])
               else []) @
     (if hexColumn (fst ?t) + 1 \<ge> hexColumns (fst ?t) then [''\<newline>  ''] else []) @
     [format_hex v (hexDigits (fst ?t) + 2)]"
  have "stdout (snd (write_all vs s)) = stdout (snd s) @ (body @ ?mid) @ ['' };\<newline>'', ''\<newline>'']"
    using c by (simp add: vs write_all_snoc stdout_write_hex b(1))
  moreover have "'' };\<newline>'' \<notin> set (body @ ?mid)"
    using b(2) by (simp add: format_hex_no_brace)
  ultimately show ?thesis by blast
qed

lemma wav_header_no_brace:
  "wav_header p rate n bits \<noteq> '' };\<newline>''" "'' };\<newline>'' \<noteq> wav_header p rate n bits"
  by (simp_all add: wav_header_def)

text \<open>
  Claim C7, as the source has it. When \<^verbatim>\<open>convertWav\<close> returns 1, the number of values it
  handed to the formatter is the element count it declared to it: \<open>samples\<close> in 8-bit
  output mode and \<open>5 * ceil(samples / 4)\<close> in 10-bit mode. If the file declares at least
  one sample, the closing brace is the last thing written to \<open>stdout\<close> (before the line
  end of the \<^verbatim>\<open>print\<close>) and occurs nowhere before.
\<close>

theorem wav_count_written:
  assumes "fst (convertWav r p bs world0) = Inr 1"
  shows "length (written (snd (convertWav r p bs world0))) = nat (wav_count r bs)
       \<and> nat (wav_count r bs) =
           (if wav_bitsPer bs = 16 \<and> r = 10 then 5 * ((nat (wav_samples bs) + 3) div 4)
            else nat (wav_samples bs))
       \<and> (wav_samples bs \<noteq> 0 \<longrightarrow>
            drop (length (stdout (snd (convertWav r p bs world0))) - 2)
                 (stdout (snd (convertWav r p bs world0))) = ['' };\<newline>'', ''\<newline>'']
            \<and> '' };\<newline>'' \<notin> set (take (length (stdout (snd (convertWav r p bs world0))) - 2)
                                      (stdout (snd (convertWav r p bs world0)))))"
proof -
  let ?h = "(HexTable_init (wav_count r bs) 12 2,
      put (wav_header p (wav_rate bs) (wav_samples bs) (wav_bits r bs)) (put_err ''WAV OK\<newline>'' world0))"
  have e: "snd (convertWav r p bs world0) = snd (write_all (wav_output r bs) ?h)"
    by (simp add: convertWav_success [OF assms] wav_start_fields)
  have l: "length (written (snd (convertWav r p bs world0))) = nat (wav_count r bs)"
    by (simp add: e written_write_all length_wav_output put_def put_err_def world0_fields)
  have n: "nat (wav_count r bs) =
           (if wav_bitsPer bs = 16 \<and> r = 10 then 5 * ((nat (wav_samples bs) + 3) div 4)
            else nat (wav_samples bs))"
    using length_wav_output [of r bs] by (auto simp: wav_output_def length_pack10)
  have c: "drop (length (stdout (snd (convertWav r p bs world0))) - 2)
                 (stdout (snd (convertWav r p bs world0))) = ['' };\<newline>'', ''\<newline>'']
            \<and> '' };\<newline>'' \<notin> set (take (length (stdout (snd (convertWav r p bs world0))) - 2)
                                      (stdout (snd (convertWav r p bs world0))))"
    if "wav_samples bs \<noteq> 0"
  proof -
    from that wav_samples_nonneg [of bs] have pos: "0 < nat (wav_samples bs)" by simp
    then have "0 < (nat (wav_samples bs) + 3) div 4" by (simp add: div_greater_zero_iff)
    with pos have "0 < nat (wav_count r bs)" by (simp add: n)
    then have ne: "wav_output r bs \<noteq> []" "int (length (wav_output r bs)) = wav_count r bs"
      using length_wav_output [of r bs] by auto
    have "hexCounter (fst ?h) + int (length (wav_output r bs)) = hexLimit (fst ?h)"
      using ne(2) by (simp add: HexTable_init_def)
    from write_all_closes [OF this ne(1)] obtain body where b:
      "stdout (snd (write_all (wav_output r bs) ?h)) =
         stdout (snd ?h) @ body @ ['' };\<newline>'', ''\<newline>'']"
      "'' };\<newline>'' \<notin> set body"
      by auto
    have h: "stdout (put (wav_header p (wav_rate bs) (wav_samples bs) (wav_bits r bs))
                 (put_err ''WAV OK\<newline>'' world0)) =
             [wav_header p (wav_rate bs) (wav_samples bs) (wav_bits r bs)]"
      by (simp add: put_def put_err_def world0_fields)
    show ?thesis
      using b(2) by (simp add: e b(1) h wav_header_no_brace)
  qed
  from l n c show ?thesis by blast
qed

theorem wav_count_written_witness:
  "fst (convertWav 8 [] (wav_file 2 4 16 8 [0, 0, 0, 0, 0, 0, 0, 0]) world0) = Inr 1
   \<and> wav_samples (wav_file 2 4 16 8 [0, 0, 0, 0, 0, 0, 0, 0]) \<noteq> 0
   \<and> length (written (snd (convertWav 8 [] (wav_file 2 4 16 8 [0, 0, 0, 0, 0, 0, 0, 0]) world0))) = 2
   \<and> drop (length (stdout (snd (convertWav 8 [] (wav_file 2 4 16 8 [0, 0, 0, 0, 0, 0, 0, 0]) world0))) - 2)
         (stdout (snd (convertWav 8 [] (wav_file 2 4 16 8 [0, 0, 0, 0, 0, 0, 0, 0]) world0)))
       = ['' };\<newline>'', ''\<newline>'']"
proof -
  let ?W = "wav_file 2 4 16 8 [0, 0, 0, 0, 0, 0, 0, 0]"
  have s: "wav_samples ?W = 2" by (simp add: wav_samples_def wav_file_fields)
  have ok: "fst (convertWav 8 [] ?W world0) = Inr 1"
    by (simp add: convertWav_outcome wav_file_fields s data_present_def sample_width_def)
  have c: "wav_count 8 ?W = 2" by (simp add: wav_count_def s)
  from wav_count_written [OF ok] show ?thesis by (simp add: ok s c)
qed

text \<open>
  Claim C7 as worded fails: a mono 8-bit file that declares two samples and holds one
  passes the magic check; two elements are declared to the formatter, one value is
  written, and the read of the second sample raises IndexError.
\<close>

theorem wav_count_written_counterexample:
  "wav_magic (wav_file 1 1 8 2 [7])
   \<and> wav_count 8 (wav_file 1 1 8 2 [7]) = 2
   \<and> fst (convertWav 8 [] (wav_file 1 1 8 2 [7]) world0) = Inl IndexError
   \<and> length (wav_values 8 (wav_file 1 1 8 2 [7])) < 2"
proof -
  let ?T = "wav_file 1 1 8 2 [7]"
  have s: "wav_samples ?T = 2" by (simp add: wav_samples_def wav_file_fields)
  have e: "fst (convertWav 8 [] ?T world0) = Inl IndexError"
    by (simp add: convertWav_outcome wav_file_fields s data_present_def sample_width_def)
  from convertWav_written [of ?T 8 "[]" world0] obtain k where
    "wav_values 8 ?T = wav_scaled 8 ?T k" "k < nat (wav_samples ?T) \<or> k = 0"
    by (auto simp: wav_values_def world0_fields e)
  then have "length (wav_values 8 ?T) < 2" by (auto simp: s)
  with e s show ?thesis by (simp add: wav_file_fields wav_count_def)
qed

subsection \<open>The layout of bitmap bytes\<close>

lemma bitmap_pixel_pure:
  "foldl (bitmap_pixel pixels y) (b, m, write_all out0 s) xs =
     (case foldl (pixel_pure pixels y) (b, m, out0) xs of
        (b', m', out) \<Rightarrow> (b', m', write_all out s))"
proof (induction xs rule: rev_induct)
  case Nil
  show ?case by simp
next
  case (snoc x xs)
  obtain b' m' out where f: "foldl (pixel_pure pixels y) (b, m, out0) xs = (b', m', out)"
    by (cases "foldl (pixel_pure pixels y) (b, m, out0) xs")
  with snoc show ?case
    by (simp add: bitmap_pixel_def pixel_pure_def Let_def write_all_snoc)
qed

lemma bitmap_row_values: "bitmap_row pixels wd s y = write_all (row_values pixels wd y) s"
proof -
  obtain b m out where f: "foldl (pixel_pure pixels y) (0, 0, []) [0..<wd] = (b, m, out)"
    by (cases "foldl (pixel_pure pixels y) (0, 0, []) [0..<wd]")
  from bitmap_pixel_pure [of pixels y 0 0 "[]" s "[0..<wd]"] f
  show ?thesis by (simp add: bitmap_row_def row_values_def write_all_snoc)
qed

lemma bitmap_rows_values:
  "foldl (bitmap_row pixels wd) s [0..<ht] =
     write_all (concat (map (row_values pixels wd) [0..<ht])) s"
  by (induction ht) (simp_all add: write_all_append bitmap_row_values)

lemma image_values_mono:
  "image_values (Mono wd ht pixels) = concat (map (row_values pixels wd) [0..<ht])"
  by (simp add: image_values_def convertImage_mono bitmap_rows_values written_write_all
      put_def put_err_def world0_def)

lemma bit_shift_in:
  fixes s p :: int
  assumes "p = 0 \<or> p = 1"
  shows "bit (push_bit 1 s + p) j \<longleftrightarrow> (if j = 0 then p = 1 else bit s (j - 1))"
proof (cases j)
  case 0
  with assms show ?thesis by (auto simp: bit_0 push_bit_eq_mult)
next
  case (Suc k)
  have "(push_bit 1 s + p) div 2 = s" using assms by (auto simp: push_bit_eq_mult)
  then show ?thesis by (simp add: Suc bit_Suc)
qed

lemma row_inv_step:
  assumes "row_inv pixels y n st"
  shows "row_inv pixels y (Suc n) (pixel_pure pixels y st n)"
proof -
  obtain bits sm out where st: "st = (bits, sm, out)" by (cases st)
  define p :: int where "p = (if pixels n y > 0 then 1 else 0)"
  define sm' where "sm' = push_bit 1 sm + p"
  have p: "p = 0 \<or> p = 1" "p = 1 \<longleftrightarrow> pixels n y > 0" by (simp_all add: p_def)
  from assms have i: "bits = int (n mod 8)" "0 \<le> sm" "sm < 2 ^ (n mod 8)"
    "\<And>j. j < n mod 8 \<Longrightarrow> bit sm j \<longleftrightarrow> pixels (n - 1 - j) y > 0"
    "length out = n div 8"
    "\<And>x. x < 8 * (n div 8) \<Longrightarrow> bit (out ! (x div 8)) (7 - x mod 8) \<longleftrightarrow> pixels x y > 0"
    by (simp_all add: row_inv_def st)
  have sm': "0 \<le> sm'" "sm' < 2 * 2 ^ (n mod 8)"
    using i(2,3) p(1) by (auto simp: sm'_def push_bit_eq_mult)
  have b: "bit sm' j \<longleftrightarrow> pixels (n - j) y > 0" if "j < Suc (n mod 8)" for j
  proof (cases j)
    case 0
    then show ?thesis using bit_shift_in [OF p(1), of sm 0] p(2) by (simp add: sm'_def)
  next
    case (Suc k)
    with that have k: "k < n mod 8" by simp
    then have "k < n" using mod_less_eq_dividend [of n 8] by linarith
    then have "n - 1 - k = n - j" using Suc by simp
    with i(4) [OF k] bit_shift_in [OF p(1), of sm j] Suc show ?thesis by (simp add: sm'_def)
  qed
  have step: "pixel_pure pixels y st n =
    (if bits + 1 \<ge> 8 then (0, 0, out @ [sm']) else (bits + 1, sm', out))"
    by (simp add: pixel_pure_def st Let_def sm'_def p_def)
  show ?thesis
  proof (cases "n mod 8 = 7")
    case True
    then have m: "Suc n mod 8 = 0" "Suc n div 8 = Suc (n div 8)" by (simp_all add: mod_Suc div_Suc)
    have n: "n = 8 * (n div 8) + 7" using True mult_div_mod_eq [of 8 n] by simp
    have "bit ((out @ [sm']) ! (x div 8)) (7 - x mod 8) \<longleftrightarrow> pixels x y > 0"
      if x: "x < 8 * Suc (n div 8)" for x
    proof (cases "x < 8 * (n div 8)")
      case True
      then have "x div 8 < length out" using i(5) by (simp add: less_mult_imp_div_less mult.commute)
      with i(6) [OF True] show ?thesis by (simp add: nth_append)
    next
      case False
      with x have d: "x div 8 = n div 8" by (simp add: div_nat_eqI mult.commute)
      then have e: "x = 8 * (n div 8) + x mod 8" using mult_div_mod_eq [of 8 x] by simp
      have "n - (7 - x mod 8) = x" using n e by linarith
      with b [of "7 - x mod 8"] True show ?thesis by (simp add: d i(5) nth_append)
    qed
    with True i(1) show ?thesis by (simp add: step row_inv_def m i(5))
  next
    case False
    then have l: "n mod 8 < 7" using mod_less_divisor [of 8 n] by linarith
    then have m: "Suc n mod 8 = Suc (n mod 8)" "Suc n div 8 = n div 8"
      by (simp_all add: mod_Suc div_Suc)
    have "bit sm' j \<longleftrightarrow> pixels (Suc n - 1 - j) y > 0" if "j < Suc (n mod 8)" for j
      using b [OF that] by simp
    with l i(1,5,6) sm' show ?thesis by (simp add: step row_inv_def m)
  qed
qed

lemma row_inv_fold: "row_inv pixels y n (foldl (pixel_pure pixels y) (0, 0, []) [0..<n])"
  by (induction n) (simp_all add: row_inv_def [of _ _ 0] row_inv_step)

lemma divmod8:
  fixes n :: nat
  obtains q r where "n = 8 * q + r" "r < 8" "n div 8 = q" "n mod 8 = r"
proof -
  have "n = 8 * (n div 8) + n mod 8" "n mod 8 < 8" by simp_all
  then show ?thesis using that by blast
qed

lemma ceil_div8: "((wd::nat) + 7) div 8 = (if 0 < wd mod 8 then Suc (wd div 8) else wd div 8)"
proof -
  obtain q r where w: "wd = 8 * q + r" "r < 8" "wd div 8 = q" "wd mod 8 = r" by (rule divmod8)
  show ?thesis
  proof (cases "r = 0")
    case True
    then show ?thesis by (simp add: w(1) w(3) [unfolded w(1)] w(4) [unfolded w(1)])
  next
    case False
    have "(wd + 7) div 8 = Suc q"
      using w(1,2) False by (intro div_nat_eqI) simp_all
    with False show ?thesis by (simp add: w(3,4))
  qed
qed

lemma div8_less: "(x::nat) div 8 < wd div 8 \<Longrightarrow> x < 8 * (wd div 8)"
proof -
  assume a: "x div 8 < wd div 8"
  obtain d m where x: "x = 8 * d + m" "m < 8" "x div 8 = d" "x mod 8 = m" by (rule divmod8)
  obtain q r where w: "wd = 8 * q + r" "r < 8" "wd div 8 = q" "wd mod 8 = r" by (rule divmod8)
  from a have "d < q" by (simp only: x(3) w(3))
  with x(1,2) have "x < 8 * q" by linarith
  then show ?thesis by (simp only: w(3))
qed

lemma div8_last:
  assumes "(x::nat) < wd" "\<not> x div 8 < wd div 8"
  shows "x div 8 = wd div 8" "x mod 8 < wd mod 8" "wd - 1 - (wd mod 8 - 1 - x mod 8) = x"
proof -
  obtain d m where x: "x = 8 * d + m" "m < 8" "x div 8 = d" "x mod 8 = m" by (rule divmod8)
  obtain q r where w: "wd = 8 * q + r" "r < 8" "wd div 8 = q" "wd mod 8 = r" by (rule divmod8)
  from assms(2) have "\<not> d < q" unfolding x(3) w(3) .
  then have "q \<le> d" by simp
  with assms(1) x(1,2) w(1,2) have e: "d = q" "m < r" by linarith+
  show "x div 8 = wd div 8" "x mod 8 < wd mod 8" using e by (simp_all only: x(3,4) w(3,4))
  have "wd - 1 - (r - 1 - m) = x" using e x(1) w(1) by linarith
  then show "wd - 1 - (wd mod 8 - 1 - x mod 8) = x" by (simp only: x(4) w(4))
qed

lemma div8_less_ceil: "(x::nat) < wd \<Longrightarrow> x div 8 < (wd + 7) div 8"
proof -
  assume a: "x < wd"
  obtain d m where x: "x = 8 * d + m" "m < 8" "x div 8 = d" "x mod 8 = m" by (rule divmod8)
  obtain q r where w: "wd = 8 * q + r" "r < 8" "wd div 8 = q" "wd mod 8 = r" by (rule divmod8)
  have "(wd + 7) div 8 = (if 0 < r then Suc q else q)" using ceil_div8 [of wd] by (simp only: w(3,4))
  moreover have "d < (if 0 < r then Suc q else q)" using a x(1,2) w(1,2) by (auto split: if_splits)
  ultimately show ?thesis by (simp only: x(3))
qed

lemma row_values_eq:
  "row_values pixels wd y =
     (if 0 < wd mod 8 then row_out pixels wd y @ [row_acc pixels wd y] else row_out pixels wd y)"
  "length (row_out pixels wd y) = wd div 8"
  "0 \<le> row_acc pixels wd y" "row_acc pixels wd y < 2 ^ (wd mod 8)"
  "\<And>j. j < wd mod 8 \<Longrightarrow> bit (row_acc pixels wd y) j \<longleftrightarrow> pixels (wd - 1 - j) y > 0"
  "\<And>x. x < 8 * (wd div 8) \<Longrightarrow>
     bit (row_out pixels wd y ! (x div 8)) (7 - x mod 8) \<longleftrightarrow> pixels x y > 0"
proof -
  obtain bits sm out where f: "foldl (pixel_pure pixels y) (0, 0, []) [0..<wd] = (bits, sm, out)"
    by (cases "foldl (pixel_pure pixels y) (0, 0, []) [0..<wd]")
  with row_inv_fold [of pixels y wd] have i: "bits = int (wd mod 8)" "0 \<le> sm" "sm < 2 ^ (wd mod 8)"
    "\<And>j. j < wd mod 8 \<Longrightarrow> bit sm j \<longleftrightarrow> pixels (wd - 1 - j) y > 0"
    "length out = wd div 8"
    "\<And>x. x < 8 * (wd div 8) \<Longrightarrow> bit (out ! (x div 8)) (7 - x mod 8) \<longleftrightarrow> pixels x y > 0"
    by (simp_all add: row_inv_def)
  have a: "row_acc pixels wd y = sm" "row_out pixels wd y = out"
    by (simp_all add: row_acc_def row_out_def f)
  show "row_values pixels wd y =
     (if 0 < wd mod 8 then row_out pixels wd y @ [row_acc pixels wd y] else row_out pixels wd y)"
    by (simp add: row_values_def f i(1) a)
  show "length (row_out pixels wd y) = wd div 8" "0 \<le> row_acc pixels wd y"
    "row_acc pixels wd y < 2 ^ (wd mod 8)"
    using i(2,3,5) by (simp_all add: a)
  show "\<And>j. j < wd mod 8 \<Longrightarrow> bit (row_acc pixels wd y) j \<longleftrightarrow> pixels (wd - 1 - j) y > 0"
    using i(4) by (simp add: a)
  show "\<And>x. x < 8 * (wd div 8) \<Longrightarrow>
     bit (row_out pixels wd y ! (x div 8)) (7 - x mod 8) \<longleftrightarrow> pixels x y > 0"
    using i(6) by (simp add: a)
qed

lemma length_row_values: "length (row_values pixels wd y) = (wd + 7) div 8"
proof -
  note r = row_values_eq [where pixels = pixels and wd = wd and y = y]
  from r(1,2) ceil_div8 [of wd] show ?thesis by simp
qed

lemma row_values_full:
  assumes "x div 8 < wd div 8"
  shows "bit (row_values pixels wd y ! (x div 8)) (7 - x mod 8) \<longleftrightarrow> pixels x y > 0"
proof -
  note r = row_values_eq [where pixels = pixels and wd = wd and y = y]
  have "x < 8 * (wd div 8)" using assms by (rule div8_less)
  from r(6) [OF this] assms r(2) show ?thesis by (simp add: r(1) nth_append)
qed

lemma row_values_partial:
  assumes "x < wd" "\<not> x div 8 < wd div 8"
  shows "bit (row_values pixels wd y ! (x div 8)) (wd mod 8 - 1 - x mod 8) \<longleftrightarrow> pixels x y > 0"
    and "0 \<le> row_values pixels wd y ! (x div 8)"
    and "row_values pixels wd y ! (x div 8) < 2 ^ (wd mod 8)"
proof -
  note r = row_values_eq [where pixels = pixels and wd = wd and y = y]
  note d = div8_last [OF assms]
  have "0 < wd mod 8" using d(2) by simp
  then have "row_values pixels wd y ! (wd div 8) = row_acc pixels wd y"
    using nth_append_length [of "row_out pixels wd y" "row_acc pixels wd y" "[]"]
    by (simp add: r(1,2))
  then have v: "row_values pixels wd y ! (x div 8) = row_acc pixels wd y" by (simp only: d(1))
  have j: "wd mod 8 - 1 - x mod 8 < wd mod 8" using d(2) by simp
  from d(3) r(5) [OF j] show "bit (row_values pixels wd y ! (x div 8)) (wd mod 8 - 1 - x mod 8) \<longleftrightarrow> pixels x y > 0"
    by (simp add: v)
  show "0 \<le> row_values pixels wd y ! (x div 8)" "row_values pixels wd y ! (x div 8) < 2 ^ (wd mod 8)"
    using r(3,4) by (simp_all add: v)
qed

lemma concat_rows:
  assumes "\<And>y. length (f y) = n"
  shows "concat (map f [0..<ht]) = concat (map (\<lambda>y. map (\<lambda>i. f y ! i) [0..<n]) [0..<ht])"
proof -
  have "f y = map (\<lambda>i. f y ! i) [0..<n]" for y
    using map_nth [of "f y"] assms [of y] by simp
  then have "f = (\<lambda>y. map (\<lambda>i. f y ! i) [0..<n])" by (intro ext)
  then show ?thesis by (rule arg_cong [where f = "\<lambda>g. concat (map g [0..<ht])"])
qed

lemma length_image_values_mono:
  "length (image_values (Mono wd ht pixels)) = ((wd + 7) div 8) * ht"
  by (simp add: image_values_mono concat_rows [of "row_values pixels wd", OF length_row_values]
      length_concat_grid mult.commute)

lemma nth_image_values_mono:
  assumes "y < ht" "i < (wd + 7) div 8"
  shows "image_values (Mono wd ht pixels) ! (y * ((wd + 7) div 8) + i) = row_values pixels wd y ! i"
  using nth_concat_grid [OF assms, of "\<lambda>y i. row_values pixels wd y ! i"]
  by (simp add: image_values_mono concat_rows [of "row_values pixels wd", OF length_row_values])

text \<open>
  What the bitmap branch does: \<open>ceil(wd / 8) * ht\<close> bytes; in the bytes filled with eight
  pixels, pixel \<open>x\<close> is bit \<open>7 - x mod 8\<close>; in the last byte of a row whose width is not a
  multiple of 8, the \<open>wd mod 8\<close> pixels are the low bits of the byte, pixel \<open>x\<close> being bit
  \<open>wd mod 8 - 1 - x mod 8\<close>, and the leading bits are zero.
\<close>

lemma bitmap_bytes:
  "length (image_values (Mono wd ht pixels)) = ((wd + 7) div 8) * ht"
  "x < wd \<Longrightarrow> y < ht \<Longrightarrow> x div 8 < wd div 8 \<Longrightarrow>
     bit (image_values (Mono wd ht pixels) ! (y * ((wd + 7) div 8) + x div 8)) (7 - x mod 8)
       \<longleftrightarrow> pixels x y \<noteq> 0"
  "x < wd \<Longrightarrow> y < ht \<Longrightarrow> \<not> x div 8 < wd div 8 \<Longrightarrow>
     (bit (image_values (Mono wd ht pixels) ! (y * ((wd + 7) div 8) + x div 8))
          (wd mod 8 - 1 - x mod 8) \<longleftrightarrow> pixels x y \<noteq> 0)
     \<and> 0 \<le> image_values (Mono wd ht pixels) ! (y * ((wd + 7) div 8) + x div 8)
     \<and> image_values (Mono wd ht pixels) ! (y * ((wd + 7) div 8) + x div 8) < 2 ^ (wd mod 8)"
proof -
  show "length (image_values (Mono wd ht pixels)) = ((wd + 7) div 8) * ht"
    by (rule length_image_values_mono)
  have i: "x div 8 < (wd + 7) div 8" if "x < wd" using that by (rule div8_less_ceil)
  show "bit (image_values (Mono wd ht pixels) ! (y * ((wd + 7) div 8) + x div 8)) (7 - x mod 8)
       \<longleftrightarrow> pixels x y \<noteq> 0"
    if "x < wd" "y < ht" "x div 8 < wd div 8"
    using that row_values_full [OF that(3), of pixels y]
    by (simp add: nth_image_values_mono [OF that(2) i] word_neq_0_conv)
  show "(bit (image_values (Mono wd ht pixels) ! (y * ((wd + 7) div 8) + x div 8))
          (wd mod 8 - 1 - x mod 8) \<longleftrightarrow> pixels x y \<noteq> 0)
     \<and> 0 \<le> image_values (Mono wd ht pixels) ! (y * ((wd + 7) div 8) + x div 8)
     \<and> image_values (Mono wd ht pixels) ! (y * ((wd + 7) div 8) + x div 8) < 2 ^ (wd mod 8)"
    if "x < wd" "y < ht" "\<not> x div 8 < wd div 8"
    using that row_values_partial [OF that(1,3), of pixels y]
    by (simp add: nth_image_values_mono [OF that(2) i] word_neq_0_conv)
qed

text \<open>For a width that is a multiple of 8 this is the layout of claim C1.\<close>

lemma bitmap_bytes_aligned:
  assumes "8 dvd wd" "x < wd" "y < ht"
  shows "bit (image_values (Mono wd ht pixels) ! (y * (wd div 8) + x div 8)) (7 - x mod 8)
       \<longleftrightarrow> pixels x y \<noteq> 0"
proof -
  from assms(1) obtain k where k: "wd = 8 * k" by (elim dvdE)
  with assms(2) have a: "x div 8 < wd div 8" by (simp add: less_mult_imp_div_less mult.commute)
  have b: "(wd + 7) div 8 = wd div 8" by (simp add: k)
  from bitmap_bytes(2) [OF assms(2,3) a, of pixels] show ?thesis by (simp only: b)
qed


subsection \<open>Bitmaps whose width is not a multiple of 8\<close>

text \<open>
  Claim C1 at a width that is not a multiple of 8. The image is one row of three pixels,
  the first set and the other two clear. The claim puts pixel 0 at bit 7 of byte 0 and
  leaves the five trailing bits zero, which is the byte \<open>0x80\<close>. The source writes the
  accumulator as it stands after three shifts, \<open>0x04\<close>: the pixel is at bit 2 and bit 7 is
  clear.
\<close>

theorem bitmap_partial_byte:
  "image_values (Mono 3 1 (\<lambda>x y. if x = 0 then 255 else 0)) = [4]
   \<and> \<not> bit (image_values (Mono 3 1 (\<lambda>x y. if x = 0 then 255 else 0)) ! (0 div 8)) (7 - 0 mod 8)
   \<and> bit (image_values (Mono 3 1 (\<lambda>x y. if x = 0 then 255 else 0)) ! (0 div 8)) 2"
proof -
  have u: "[0..<3] = [0, 1, 2]" "[0..<1] = [0]" by (simp_all add: upt_rec)
  have v: "image_values (Mono 3 1 (\<lambda>x y. if x = 0 then 255 else 0)) = [4]"
    by (simp add: image_values_def convertImage_mono bitmap_row_def bitmap_pixel_def
        written_write_hex put_def put_err_def world0_def u)
  show ?thesis unfolding v by (simp add: bit_iff_odd)
qed

subsection \<open>Values and cell widths\<close>

lemma length_takeWhile_nth:
  "distinct xs \<Longrightarrow> k < length xs \<Longrightarrow> length (takeWhile (\<lambda>d. d \<noteq> xs ! k) xs) = k"
proof (induction xs arbitrary: k)
  case Nil
  then show ?case by simp
next
  case (Cons x xs)
  then show ?case by (cases k) auto
qed

lemma hex_digit_value_hexchar: "k < 16 \<Longrightarrow> hex_digit_value (hexchar k) = k"
  unfolding hex_digit_value_def hexchar_def
  by (rule length_takeWhile_nth) simp_all

lemma hexchar_mem: "k < 16 \<Longrightarrow> hexchar k \<in> set ''0123456789abcdef''"
  unfolding hexchar_def by (rule nth_mem) simp

lemma hex_value_snoc: "hex_value (ds @ [c]) = 16 * hex_value ds + hex_digit_value c"
  by (simp add: hex_value_def)

lemma hex_value_hex_digits: "hex_value (hex_digits n) = n"
proof (induction n rule: hex_digits.induct)
  case (1 n)
  show ?case
  proof (cases "n < 16")
    case True
    then show ?thesis by (simp add: hex_digits.simps [of n] hex_value_def hex_digit_value_hexchar)
  next
    case False
    with 1 have "hex_value (hex_digits (n div 16)) = n div 16" by simp
    with False show ?thesis
      by (simp add: hex_digits.simps [of n] hex_value_snoc hex_digit_value_hexchar)
  qed
qed

lemma set_hex_digits: "set (hex_digits n) \<subseteq> set ''0123456789abcdef''"
proof (induction n rule: hex_digits.induct)
  case (1 n)
  show ?case
  proof (cases "n < 16")
    case True
    with hexchar_mem [of n] show ?thesis by (simp only: hex_digits.simps [of n] if_True) simp
  next
    case False
    with 1 have "set (hex_digits (n div 16)) \<subseteq> set ''0123456789abcdef''" by simp
    moreover have "hexchar (n mod 16) \<in> set ''0123456789abcdef''" by (rule hexchar_mem) simp
    ultimately show ?thesis using False by (simp only: hex_digits.simps [of n] if_False) simp
  qed
qed

lemma hex_value_zeros: "hex_value (replicate k (CHR ''0'') @ ds) = hex_value ds"
proof -
  have z: "hex_digit_value (CHR ''0'') = 0" by (simp add: hex_digit_value_def)
  have "foldl (\<lambda>a c. 16 * a + hex_digit_value c) 0 (replicate k (CHR ''0'')) = 0"
    by (induction k) (simp_all add: z)
  then show ?thesis by (simp add: hex_value_def)
qed

lemma format_hex_nonneg:
  "0 \<le> v \<Longrightarrow> format_hex v wd = ''0x'' @ replicate (nat (wd - 2 - int (length (hex_digits (nat v))))) (CHR ''0'') @ hex_digits (nat v)"
  by (simp add: format_hex_def Let_def)

lemma hex_cell_format_hex:
  assumes "0 \<le> v" "v < 16 ^ d" "0 < d"
  shows "hex_cell d v (format_hex v (int d + 2))"
proof -
  from format_hex_fits [OF assms] have l: "length (format_hex v (int d + 2)) = d + 2"
    and t: "take 2 (format_hex v (int d + 2)) = ''0x''" by simp_all
  have d: "drop 2 (format_hex v (int d + 2)) =
      replicate (nat (int d + 2 - 2 - int (length (hex_digits (nat v))))) (CHR ''0'') @ hex_digits (nat v)"
    by (simp add: format_hex_nonneg [OF assms(1)])
  have s: "set (drop 2 (format_hex v (int d + 2))) \<subseteq> set ''0123456789abcdef''"
    unfolding d using set_hex_digits [of "nat v"] by auto
  have "hex_value (drop 2 (format_hex v (int d + 2))) = nat v"
    unfolding d by (simp only: hex_value_zeros hex_value_hex_digits)
  with assms(1) have "int (hex_value (drop 2 (format_hex v (int d + 2)))) = v" by simp
  with l t s show ?thesis unfolding hex_cell_def by simp
qed

lemma rendered_append: "rendered (xs @ ys) = rendered xs @ rendered ys"
  by (simp add: rendered_def)

lemma rendered_write_hex:
  assumes "0 \<le> v"
  shows "rendered (stdout (snd (write_hex v s))) =
     rendered (stdout (snd s)) @ [format_hex v (hexDigits (fst s) + 2)]"
proof -
  have "take 2 (format_hex v (hexDigits (fst s) + 2)) = ''0x''"
    by (simp add: format_hex_nonneg [OF assms])
  then show ?thesis
    by (simp add: stdout_write_hex rendered_def)
qed

lemma digits_write_hex: "hexDigits (fst (write_hex v s)) = hexDigits (fst s)"
  by (simp add: table_write_hex)

lemma digits_write_all: "hexDigits (fst (write_all vs s)) = hexDigits (fst s)"
  by (induction vs rule: rev_induct) (simp_all add: write_all_snoc digits_write_hex)

lemma rendered_write_all:
  assumes "\<forall>v \<in> set vs. 0 \<le> v"
  shows "rendered (stdout (snd (write_all vs s))) =
     rendered (stdout (snd s)) @ map (\<lambda>v. format_hex v (hexDigits (fst s) + 2)) vs"
  using assms
proof (induction vs rule: rev_induct)
  case Nil
  show ?case by simp
next
  case (snoc v vs)
  then have "0 \<le> v" by simp
  from rendered_write_hex [OF this, of "write_all vs s"] snoc show ?case
    by (simp add: write_all_snoc digits_write_all)
qed

lemma header_not_rendered: "rendered [''#define '' @ rest] = []"
  by (simp add: rendered_def)

lemma cells_write_all:
  assumes "\<forall>v \<in> set vs. 0 \<le> v \<and> v < 16 ^ d" "0 < d"
  shows "written (snd (write_all vs (HexTable_init count columns (int d), put (''#define '' @ rest) (put_err e world0)))) = vs
   \<and> list_all2 (hex_cell d) vs
       (rendered (stdout (snd (write_all vs (HexTable_init count columns (int d), put (''#define '' @ rest) (put_err e world0))))))"
proof -
  let ?s = "(HexTable_init count columns (int d), put (''#define '' @ rest) (put_err e world0))"
  have o: "stdout (snd ?s) = [''#define '' @ rest]"
    by (simp add: put_def put_err_def world0_def)
  have n: "\<forall>v \<in> set vs. 0 \<le> v" using assms(1) by simp
  have r: "rendered (stdout (snd (write_all vs ?s))) = map (\<lambda>v. format_hex v (int d + 2)) vs"
    unfolding rendered_write_all [OF n] o header_not_rendered
    by (simp add: HexTable_init_def)
  have w: "written (snd (write_all vs ?s)) = vs"
    by (simp add: written_write_all put_def put_err_def world0_def)
  have "list_all2 (hex_cell d) vs (map (\<lambda>v. format_hex v (int d + 2)) vs)"
    using assms by (simp add: list_all2_map2 list.rel_refl_strong hex_cell_format_hex)
  with r w show ?thesis by simp
qed

lemma cells_bytes:
  assumes "\<forall>v \<in> set vs. 0 \<le> v \<and> v < 256"
  shows "written (snd (write_all vs (HexTable_init count columns 2, put (''#define '' @ rest) (put_err e world0)))) = vs
   \<and> list_all2 (hex_cell 2) vs
       (rendered (stdout (snd (write_all vs (HexTable_init count columns 2, put (''#define '' @ rest) (put_err e world0))))))"
  using cells_write_all [where d = 2 and vs = vs] assms by simp

lemma cells_words:
  assumes "\<forall>v \<in> set vs. 0 \<le> v \<and> v < 65536"
  shows "written (snd (write_all vs (HexTable_init count columns 4, put (''#define '' @ rest) (put_err e world0)))) = vs
   \<and> list_all2 (hex_cell 4) vs
       (rendered (stdout (snd (write_all vs (HexTable_init count columns 4, put (''#define '' @ rest) (put_err e world0))))))"
  using cells_write_all [where d = 4 and vs = vs] assms by simp

lemma cells_mono:
  "list_all2 (hex_cell 2) (written (snd (convertImage p (Some (Mono wd ht pixels)) world0)))
     (rendered (stdout (snd (convertImage p (Some (Mono wd ht pixels)) world0))))"
proof -
  have b: "\<forall>v \<in> set (concat (map (row_values pixels wd) [0..<ht])). 0 \<le> v \<and> v < 256"
    using byte_values_mono [of wd ht pixels] unfolding image_values_mono .
  from cells_bytes [OF b] show ?thesis
    unfolding convertImage_mono bitmap_rows_values bitmap_header_def snd_conv by simp
qed

lemma written_mono:
  "written (snd (convertImage p (Some (Mono wd ht pixels)) world0)) = image_values (Mono wd ht pixels)"
  by (simp add: image_values_mono convertImage_mono bitmap_rows_values written_write_all
      put_def put_err_def world0_def)

lemma cells_colour:
  "list_all2 (hex_cell 4) (written (snd (convertImage p (Some (Colour wd ht pixels)) world0)))
     (rendered (stdout (snd (convertImage p (Some (Colour wd ht pixels)) world0))))"
proof -
  have b: "\<forall>v \<in> set (concat (map (\<lambda>x. map (\<lambda>y. quantize (pixels x y)) [0..<ht]) [0..<wd])). 0 \<le> v \<and> v < 65536"
    using word_values_colour [of wd ht pixels] unfolding image_values_colour .
  from cells_words [OF b] show ?thesis
    unfolding convertImage_colour colour_header_def snd_conv by simp
qed

lemma written_colour:
  "written (snd (convertImage p (Some (Colour wd ht pixels)) world0)) = image_values (Colour wd ht pixels)"
  by (simp add: image_values_colour convertImage_colour written_write_all
      put_def put_err_def world0_def)

lemma wav_written_bytes: "\<forall>v \<in> set (written (snd (convertWav r p bs world0))). 0 \<le> v \<and> v < 256"
proof -
  from convertWav_written [of bs r p world0] obtain k where
    k: "written (snd (convertWav r p bs world0)) =
       (if wav_bitsPer bs = 16 \<and> r = 10
        then (if fst (convertWav r p bs world0) = Inr 1 then pack10 (wav_scaled r bs k)
              else pack10 (full_groups (wav_scaled r bs k)))
        else wav_scaled r bs k)"
    by (auto simp: world0_def)
  show ?thesis
  proof (cases "wav_bitsPer bs = 16 \<and> r = 10")
    case True
    then have s: "\<forall>s \<in> set (wav_scaled r bs k). 0 \<le> s \<and> s < 1024"
      using scaled_bounds_pack [of bs _ k] by simp
    then have "\<forall>s \<in> set (full_groups (wav_scaled r bs k)). 0 \<le> s \<and> s < 1024"
      using set_full_groups [of "wav_scaled r bs k"] by blast
    with s True show ?thesis
      unfolding k
      using pack10_bounds [of "wav_scaled r bs k"] pack10_bounds [of "full_groups (wav_scaled r bs k)"]
      by simp
  next
    case False
    then show ?thesis unfolding k using scaled_bounds_direct [OF False] by auto
  qed
qed

lemma convertWav_sink:
  assumes "wav_magic bs" "wav_bytesPer bs \<noteq> 0"
  shows "\<exists>vs. snd (convertWav r p bs w) = snd (write_all vs (hex (wav_start r p bs w)))"
proof (cases "wav_bitsPer bs = 16 \<and> r = 10")
  case True
  with convertWav_pack [OF assms, of p w] show ?thesis by blast
next
  case False
  from convertWav_direct [OF assms False, of p w] show ?thesis by blast
qed

lemma cells_wav:
  "list_all2 (hex_cell 2) (written (snd (convertWav r p bs world0)))
     (rendered (stdout (snd (convertWav r p bs world0))))"
proof (cases "wav_magic bs \<and> wav_bytesPer bs \<noteq> 0")
  case False
  then show ?thesis
    by (auto simp: convertWav_eq put_err_def world0_def rendered_def)
next
  case True
  then have m: "wav_magic bs" "wav_bytesPer bs \<noteq> 0" by simp_all
  from convertWav_sink [OF m, of r p world0] obtain vs where
    vs: "snd (convertWav r p bs world0) = snd (write_all vs (hex (wav_start r p bs world0)))" ..
  have w: "written (snd (convertWav r p bs world0)) = vs"
    unfolding vs by (simp add: written_write_all wav_start_fields put_def put_err_def world0_def)
  have b: "\<forall>v \<in> set vs. 0 \<le> v \<and> v < 256"
    using wav_written_bytes [of r p bs] unfolding w .
  from cells_bytes [OF b] show ?thesis
    unfolding vs wav_start_fields wav_header_def by simp
qed

text \<open>
  Claim C8. Take a run of the bitmap branch, of the audio conversion or of the colour
  branch from an empty \<open>stdout\<close>. Every value handed to the formatter is in \<open>0..255\<close>
  (bitmap, audio) or in \<open>0..65535\<close> (colour), and the elements on \<open>stdout\<close> are, one for
  each value and in the order of the calls, \<^verbatim>\<open>0x\<close> followed by exactly as many hexadecimal
  digits as the table of that conversion is created with (2 for bitmap and audio, 4 for
  colour), the digits denoting the value.
\<close>

theorem values_fit_cells:
  "(let w = snd (convertImage p (Some (Mono wd ht pixels)) world0) in
      (\<forall>v \<in> set (written w). 0 \<le> v \<and> v < 256)
      \<and> list_all2 (hex_cell 2) (written w) (rendered (stdout w)))
   \<and> (let w = snd (convertWav r p' bs world0) in
      (\<forall>v \<in> set (written w). 0 \<le> v \<and> v < 256)
      \<and> list_all2 (hex_cell 2) (written w) (rendered (stdout w)))
   \<and> (let w = snd (convertImage p'' (Some (Colour wd' ht' pixels')) world0) in
      (\<forall>v \<in> set (written w). 0 \<le> v \<and> v < 65536)
      \<and> list_all2 (hex_cell 4) (written w) (rendered (stdout w)))"
  unfolding Let_def
  using byte_values_mono [of wd ht pixels] wav_written_bytes [of r p' bs]
    word_values_colour [of wd' ht' pixels']
    cells_mono [of p wd ht pixels] cells_wav [of r p' bs] cells_colour [of p'' wd' ht' pixels']
  unfolding written_mono written_colour
  by simp

theorem values_fit_cells_witness:
  "written (snd (convertImage [] (Some (Mono 1 1 (\<lambda>x y. 255))) world0)) = [1]
   \<and> (\<exists>c. rendered (stdout (snd (convertImage [] (Some (Mono 1 1 (\<lambda>x y. 255))) world0))) = [c]
          \<and> hex_cell 2 1 c)
   \<and> written (snd (convertWav 8 [] (wav_file 2 4 16 8 [0, 0, 0, 0, 0, 0, 0, 0]) world0)) = [128, 128]
   \<and> (\<exists>c c'. rendered (stdout (snd (convertWav 8 [] (wav_file 2 4 16 8 [0, 0, 0, 0, 0, 0, 0, 0]) world0)))
            = [c, c'] \<and> hex_cell 2 128 c \<and> hex_cell 2 128 c')
   \<and> written (snd (convertImage [] (Some (Colour 1 1 (\<lambda>x y. (255, 255, 255)))) world0)) = [65535]
   \<and> (\<exists>c. rendered (stdout (snd (convertImage [] (Some (Colour 1 1 (\<lambda>x y. (255, 255, 255)))) world0))) = [c]
          \<and> hex_cell 4 65535 c)"
proof -
  have m: "written (snd (convertImage [] (Some (Mono 1 1 (\<lambda>x y. 255))) world0)) = [1]"
    unfolding written_mono by (rule bitmap_1x1)
  have a: "written (snd (convertWav 8 [] (wav_file 2 4 16 8 [0, 0, 0, 0, 0, 0, 0, 0]) world0)) = [128, 128]"
    using silence_values by (simp add: wav_values_def)
  have c: "written (snd (convertImage [] (Some (Colour 1 1 (\<lambda>x y. (255, 255, 255)))) world0)) = [65535]"
    by (simp add: written_colour image_values_colour quantize_def)
  note t = values_fit_cells [of "[]" 1 1 "\<lambda>x y. 255" 8 "[]" "wav_file 2 4 16 8 [0, 0, 0, 0, 0, 0, 0, 0]"
        "[]" 1 1 "\<lambda>x y. (255, 255, 255)", unfolded Let_def m a c]
  show ?thesis unfolding m a c using t by (auto simp: list_all2_Cons1)
qed

end
